theory Spec2Isabelle
  imports Complex_Main "HOL-Library.Multiset" "HOL-Library.Monad_Syntax" "HOL-Library.Word"
begin

section \<open>JavaScript values used by the loaders' utilities\<close>

text \<open>
  The functions of \<^verbatim>\<open>packages/loaders/src/utils.ts\<close> work on JavaScript numbers.
  Finite numbers are modelled as exact reals; the rounding of IEEE doubles is modelled
  where a result depends on it, for \<^verbatim>\<open>Math.log2\<close> in \<^verbatim>\<open>prevPowerOf2\<close>, and not
  elsewhere. The special values a statistics record can hold are constructors of their own.
\<close>

datatype jsval = Num real | PosInfinity | NegInfinity | NaN | Undefined

text \<open>
  Failures. \<open>DuplicatedLabel\<close> and \<open>InvalidDimension\<close> are the two \<^verbatim>\<open>Error\<close>s that
  \<^verbatim>\<open>getDims\<close> throws, \<open>TypeError\<close> is JavaScript's own, and \<open>BackendError\<close> stands for
  a rejected \<^verbatim>\<open>getRaster\<close> promise.
\<close>

datatype error = DuplicatedLabel | InvalidDimension | TypeError | BackendError

text \<open>Reading \<^verbatim>\<open>arr[i]\<close>: outside the array JavaScript yields \<^verbatim>\<open>undefined\<close>, here \<open>None\<close>.\<close>

definition at_index :: "'a list \<Rightarrow> int \<Rightarrow> 'a option" where
  "at_index arr i = (if 0 \<le> i \<and> i < int (length arr) then Some (arr ! nat i) else None)"

section \<open>isInterleaved\<close>

text \<open>
  \<^verbatim>\<open>const lastDimSize = shape[shape.length - 1];
  return lastDimSize === 3 || lastDimSize === 4;\<close>
  For the empty shape the read yields \<^verbatim>\<open>undefined\<close>, which is neither 3 nor 4.
\<close>

definition isInterleaved :: "int list \<Rightarrow> bool" where
  "isInterleaved shape =
     (case at_index shape (int (length shape) - 1) of
        None \<Rightarrow> False
      | Some lastDimSize \<Rightarrow> lastDimSize = 3 \<or> lastDimSize = 4)"

text \<open>The copy of the same function in \<^verbatim>\<open>avivator/src/utils.js\<close>.\<close>

definition isInterleaved_avivator :: "int list \<Rightarrow> bool" where
  "isInterleaved_avivator shape =
     (case at_index shape (int (length shape) - 1) of
        None \<Rightarrow> False
      | Some lastDimSize \<Rightarrow> lastDimSize = 3 \<or> lastDimSize = 4)"

section \<open>getDims\<close>

text \<open>
  \<^verbatim>\<open>new Map(entries)\<close> sets the entries in order, so a later entry with the same key
  replaces an earlier one; \<^verbatim>\<open>lookup.size\<close> is the number of distinct keys.
\<close>

definition new_Map :: "('k \<times> 'v) list \<Rightarrow> ('k \<rightharpoonup> 'v)" where
  "new_Map entries = fold (\<lambda>(k, v) m. m(k \<mapsto> v)) entries Map.empty"

definition getDims :: "string list \<Rightarrow> error + (string \<Rightarrow> error + nat)" where
  "getDims labels =
     (let lookup = new_Map (map (\<lambda>(i, name). (name, i)) (enumerate 0 labels))
      in if card (dom lookup) \<noteq> length labels then Inl DuplicatedLabel
         else Inr (\<lambda>name. case lookup name of
                             None \<Rightarrow> Inl InvalidDimension
                           | Some index \<Rightarrow> Inr index))"

section \<open>prevPowerOf2 and guessTiffTileSize\<close>

text \<open>
  \<^verbatim>\<open>2 ** Math.floor(Math.log2(x))\<close>. ECMAScript leaves the value of \<^verbatim>\<open>Math.log2\<close> on a
  positive number to the implementation (an approximation of the logarithm, as a double),
  so the function that \<^verbatim>\<open>Math.log2\<close> computes on positive numbers is the parameter
  \<open>Math_log2\<close>. \<^verbatim>\<open>Math.floor\<close> is exact, and so is \<^verbatim>\<open>2 ** e\<close> for an integer \<open>e\<close> in the
  range of the exponents of doubles. \<^verbatim>\<open>Math.log2(0)\<close> is \<^verbatim>\<open>-Infinity\<close> (the result is
  then 0), and the logarithm of a negative number is \<^verbatim>\<open>NaN\<close>.
\<close>

definition prevPowerOf2 :: "(real \<Rightarrow> real) \<Rightarrow> real \<Rightarrow> jsval" where
  "prevPowerOf2 Math_log2 x =
     (if 0 < x then Num (2 powr of_int \<lfloor>Math_log2 x\<rfloor>)
      else if x = 0 then Num 0 else NaN)"

text \<open>What \<^verbatim>\<open>guessTiffTileSize\<close> reads of a \<^verbatim>\<open>GeoTIFFImage\<close>.\<close>

record geotiff_image =
  getTileWidth :: real
  getTileHeight :: real

definition guessTiffTileSize :: "(real \<Rightarrow> real) \<Rightarrow> geotiff_image \<Rightarrow> jsval" where
  "guessTiffTileSize Math_log2 img =
     (let tileWidth = getTileWidth img;
          tileHeight = getTileHeight img;
          sz = min tileWidth tileHeight
      in prevPowerOf2 Math_log2 sz)"

subsection \<open>The logarithm in double precision\<close>

text \<open>
  The best that an implementation of \<^verbatim>\<open>Math.log2\<close> can return is the double nearest to
  the logarithm. \<open>to_double y\<close> is the real number \<open>y\<close> rounded to the nearest number with
  a significand of 53 bits, ties to the even significand (the exponent range of doubles,
  i.e. overflow and subnormal numbers, is left out: logarithms of doubles stay far inside
  it). \<open>u\<close> is the distance between neighbouring doubles around \<open>y\<close>.
\<close>

definition round_half_even :: "real \<Rightarrow> int" where
  "round_half_even z =
     (let f = \<lfloor>z\<rfloor>
      in if z - of_int f < 1 / 2 then f
         else if 1 / 2 < z - of_int f then f + 1
         else if even f then f else f + 1)"

definition to_double :: "real \<Rightarrow> real" where
  "to_double y =
     (if y = 0 then 0
      else let u = 2 powr (of_int \<lfloor>log 2 \<bar>y\<bar>\<rfloor> - 52)
           in u * of_int (round_half_even (y / u)))"

definition log2_double :: "real \<Rightarrow> real" where
  "log2_double x = to_double (log 2 x)"

section \<open>quickselect\<close>

text \<open>
  Modelled from the spec: \<^verbatim>\<open>quickselect\<close> is the npm package imported at the top of
  \<^verbatim>\<open>utils.ts\<close>; its code is not part of this repository. The spec describes it as an
  in-place, partition-based partial selection ("elements left of index are \<open>\<le>\<close> pivot").
  The definitions below follow the package's algorithm, a Floyd-Rivest selection, statement
  by statement, so that the model of \<^verbatim>\<open>getChannelStats\<close> runs the selection the code runs:

  \<^verbatim>\<open>while (right > left) {
    if (right - left > 600) { ... quickselect(arr, k, newLeft, newRight, compare); }
    const t = arr[k]; let i = left; let j = right;
    swap(arr, left, k);
    if (compare(arr[right], t) > 0) swap(arr, left, right);
    while (i < j) {
      swap(arr, i, j); i++; j--;
      while (compare(arr[i], t) < 0) i++;
      while (compare(arr[j], t) > 0) j--;
    }
    if (compare(arr[left], t) === 0) swap(arr, left, j);
    else { j++; swap(arr, j, right); }
    if (j <= k) left = j + 1;
    if (k <= j) right = j - 1;
  }\<close>

  The typed array is a list of finite reals; indices are integers, as in JavaScript. A read
  outside the array yields \<^verbatim>\<open>undefined\<close>, which compares neither smaller nor greater
  than any number, so a scan stops there. A \<^verbatim>\<open>swap\<close> that would touch an index outside
  the array is not modelled: it gives \<open>None\<close>, and so does every call that reaches it.
\<close>

text \<open>\<^verbatim>\<open>const tmp = arr[i]; arr[i] = arr[j]; arr[j] = tmp;\<close>\<close>

definition swap :: "real list \<Rightarrow> int \<Rightarrow> int \<Rightarrow> real list option" where
  "swap arr i j =
     (if 0 \<le> i \<and> i < int (length arr) \<and> 0 \<le> j \<and> j < int (length arr)
      then Some (arr[nat i := arr ! nat j, nat j := arr ! nat i])
      else None)"

text \<open>
  The two inner loops, \<^verbatim>\<open>while (compare(arr[i], t) < 0) i++\<close> and
  \<^verbatim>\<open>while (compare(arr[j], t) > 0) j--\<close>, each returning the index where it stops.
\<close>

function scan_up :: "real list \<Rightarrow> real \<Rightarrow> int \<Rightarrow> int" where
  "scan_up arr t i =
     (case at_index arr i of
        Some x \<Rightarrow> if x < t then scan_up arr t (i + 1) else i
      | None \<Rightarrow> i)"
  by pat_completeness auto
termination
  by (relation "measure (\<lambda>(arr, t, i). nat (int (length arr) - i))")
     (auto simp: at_index_def split: if_splits)

function scan_down :: "real list \<Rightarrow> real \<Rightarrow> int \<Rightarrow> int" where
  "scan_down arr t j =
     (case at_index arr j of
        Some x \<Rightarrow> if x > t then scan_down arr t (j - 1) else j
      | None \<Rightarrow> j)"
  by pat_completeness auto
termination
  by (relation "measure (\<lambda>(arr, t, j). nat (j + 1))")
     (auto simp: at_index_def split: if_splits)

declare scan_up.simps [simp del] scan_down.simps [simp del]

lemma scan_up_ge: "i \<le> scan_up arr t i"
proof (induction arr t i rule: scan_up.induct)
  case (1 arr t i)
  then show ?case by (subst scan_up.simps) (auto split: option.splits)
qed

lemma scan_down_le: "scan_down arr t j \<le> j"
proof (induction arr t j rule: scan_down.induct)
  case (1 arr t j)
  then show ?case by (subst scan_down.simps) (auto split: option.splits)
qed

text \<open>The loop \<^verbatim>\<open>while (i < j)\<close>; it returns the array and the final \<open>j\<close>.\<close>

function sweep :: "real list \<Rightarrow> real \<Rightarrow> int \<Rightarrow> int \<Rightarrow> (real list \<times> int) option" where
  "sweep arr t i j =
     (if i < j then do {
        arr1 \<leftarrow> swap arr i j;
        sweep arr1 t (scan_up arr1 t (i + 1)) (scan_down arr1 t (j - 1))
      }
      else Some (arr, j))"
  by pat_completeness auto
termination
proof (relation "measure (\<lambda>(arr, t, i, j). nat (j - i))", goal_cases)
  case 1
  show ?case by simp
next
  case (2 arr t i j arr1)
  have "i + 1 \<le> scan_up arr1 t (i + 1)" by (rule scan_up_ge)
  moreover have "scan_down arr1 t (j - 1) \<le> j - 1" by (rule scan_down_le)
  ultimately show ?case using 2 by simp
qed

text \<open>
  One iteration of the outer loop, from \<^verbatim>\<open>const t = arr[k]\<close> to the last \<^verbatim>\<open>swap\<close>; it
  returns the array and the pivot position \<open>j\<close>. The reads of \<open>arr[k]\<close> and \<open>arr[right]\<close>
  give \<open>None\<close> outside the array, because a \<^verbatim>\<open>swap\<close> on the same index follows in every
  run (\<^verbatim>\<open>swap(arr, left, k)\<close> at once; for \<open>right\<close> the first \<^verbatim>\<open>swap(arr, i, j)\<close> or the
  final one). \<^verbatim>\<open>compare(a, b) === 0\<close> is equality of the two numbers.
\<close>

definition select_step :: "real list \<Rightarrow> int \<Rightarrow> int \<Rightarrow> int \<Rightarrow> (real list \<times> int) option" where
  "select_step arr k left right = do {
     t \<leftarrow> at_index arr k;
     arr1 \<leftarrow> swap arr left k;
     r \<leftarrow> at_index arr1 right;
     arr2 \<leftarrow> (if r > t then swap arr1 left right else Some arr1);
     (arr3, j) \<leftarrow> sweep arr2 t left right;
     l \<leftarrow> at_index arr3 left;
     if l = t then do { arr4 \<leftarrow> swap arr3 left j; Some (arr4, j) }
     else do { arr4 \<leftarrow> swap arr3 (j + 1) right; Some (arr4, j + 1) }
   }"

text \<open>
  On a range of more than 601 elements the package first selects within a narrower
  range around \<open>k\<close>:

  \<^verbatim>\<open>const n = right - left + 1; const m = k - left + 1;
  const z = Math.log(n); const s = 0.5 * Math.exp(2 * z / 3);
  const sd = 0.5 * Math.sqrt(z * s * (n - s) / n) * (m - n / 2 < 0 ? -1 : 1);
  const newLeft = Math.max(left, Math.floor(k - m * s / n + sd));
  const newRight = Math.min(right, Math.floor(k + (n - m) * s / n + sd));\<close>

  The logarithm, the exponential and the square root are the exact real functions here.
  What is proved below of \<^verbatim>\<open>quickselect\<close> uses of these bounds only that they lie in
  \<open>[left, right]\<close>, that the new range is shorter, and that \<open>newRight = right\<close> when
  \<open>k = right\<close>.
\<close>

definition floyd_rivest_bounds :: "int \<Rightarrow> int \<Rightarrow> int \<Rightarrow> int \<times> int" where
  "floyd_rivest_bounds k left right =
     (let n = real_of_int (right - left + 1);
          m = real_of_int (k - left + 1);
          z = ln n;
          s = 0.5 * exp (2 * z / 3);
          sd = 0.5 * sqrt (z * s * (n - s) / n) * (if m - n / 2 < 0 then - 1 else 1);
          newLeft = max left \<lfloor>real_of_int k - m * s / n + sd\<rfloor>;
          newRight = min right \<lfloor>real_of_int k + (n - m) * s / n + sd\<rfloor>
      in (newLeft, newRight))"

declare sweep.simps [simp del]

subsection \<open>What one partition pass does\<close>

text \<open>
  The termination of \<^verbatim>\<open>quickselect\<close> rests on the pivot position \<open>j\<close> of a pass lying inside
  \<open>[left, right]\<close>, so the facts about a pass come before its definition.
\<close>

lemma scan_up_spec:
  "(\<forall>p. i \<le> int p \<and> int p < scan_up arr t i \<longrightarrow> p < length arr \<and> arr ! p < t)
   \<and> (0 \<le> scan_up arr t i \<and> scan_up arr t i < int (length arr) \<longrightarrow> t \<le> arr ! nat (scan_up arr t i))"
proof (induction arr t i rule: scan_up.induct)
  case (1 arr t i)
  show ?case
  proof (cases "0 \<le> i \<and> i < int (length arr) \<and> arr ! nat i < t")
    case True
    then have eq: "scan_up arr t i = scan_up arr t (i + 1)"
      by (subst scan_up.simps) (simp add: at_index_def)
    have ih: "(\<forall>p. i + 1 \<le> int p \<and> int p < scan_up arr t (i + 1) \<longrightarrow> p < length arr \<and> arr ! p < t)
       \<and> (0 \<le> scan_up arr t (i + 1) \<and> scan_up arr t (i + 1) < int (length arr)
            \<longrightarrow> t \<le> arr ! nat (scan_up arr t (i + 1)))"
      using "1.IH" [of "arr ! nat i"] True by (simp add: at_index_def)
    have "p < length arr \<and> arr ! p < t" if "i \<le> int p" "int p < scan_up arr t (i + 1)" for p
    proof (cases "int p = i")
      case True
      then have "nat i = p" by simp
      with \<open>0 \<le> i \<and> i < int (length arr) \<and> arr ! nat i < t\<close> show ?thesis by auto
    next
      case False
      with that ih show ?thesis by simp
    qed
    with ih show ?thesis unfolding eq by blast
  next
    case False
    then have "scan_up arr t i = i"
      by (subst scan_up.simps) (auto simp: at_index_def)
    with False show ?thesis by auto
  qed
qed

lemma scan_down_spec:
  "(\<forall>p. scan_down arr t j < int p \<and> int p \<le> j \<longrightarrow> p < length arr \<and> t < arr ! p)
   \<and> (0 \<le> scan_down arr t j \<and> scan_down arr t j < int (length arr) \<longrightarrow> arr ! nat (scan_down arr t j) \<le> t)"
proof (induction arr t j rule: scan_down.induct)
  case (1 arr t j)
  show ?case
  proof (cases "0 \<le> j \<and> j < int (length arr) \<and> t < arr ! nat j")
    case True
    then have eq: "scan_down arr t j = scan_down arr t (j - 1)"
      by (subst scan_down.simps) (simp add: at_index_def)
    have ih: "(\<forall>p. scan_down arr t (j - 1) < int p \<and> int p \<le> j - 1 \<longrightarrow> p < length arr \<and> t < arr ! p)
       \<and> (0 \<le> scan_down arr t (j - 1) \<and> scan_down arr t (j - 1) < int (length arr)
            \<longrightarrow> arr ! nat (scan_down arr t (j - 1)) \<le> t)"
      using "1.IH" [of "arr ! nat j"] True by (simp add: at_index_def)
    have "p < length arr \<and> t < arr ! p" if "scan_down arr t (j - 1) < int p" "int p \<le> j" for p
    proof (cases "int p = j")
      case True
      then have "nat j = p" by simp
      with \<open>0 \<le> j \<and> j < int (length arr) \<and> t < arr ! nat j\<close> show ?thesis by auto
    next
      case False
      with that ih show ?thesis by simp
    qed
    with ih show ?thesis unfolding eq by blast
  next
    case False
    then have "scan_down arr t j = j"
      by (subst scan_down.simps) (auto simp: at_index_def)
    with False show ?thesis by auto
  qed
qed

text \<open>A sentinel stops the scan.\<close>

lemma scan_up_stops:
  assumes "0 \<le> i" "i \<le> int q" "q < length arr" "t \<le> arr ! q"
  shows "scan_up arr t i \<le> int q \<and> t \<le> arr ! nat (scan_up arr t i)"
proof -
  have le: "scan_up arr t i \<le> int q"
  proof (rule ccontr)
    assume "\<not> scan_up arr t i \<le> int q"
    then have "arr ! q < t" using scan_up_spec [of i arr t] assms by auto
    with assms show False by simp
  qed
  moreover have "0 \<le> scan_up arr t i" using scan_up_ge [of i arr t] assms by linarith
  ultimately show ?thesis using scan_up_spec [of i arr t] assms by auto
qed

lemma scan_down_stops:
  assumes "int q \<le> j" "j < int (length arr)" "arr ! q \<le> t"
  shows "int q \<le> scan_down arr t j \<and> arr ! nat (scan_down arr t j) \<le> t"
proof -
  have ge: "int q \<le> scan_down arr t j"
  proof (rule ccontr)
    assume "\<not> int q \<le> scan_down arr t j"
    then have "t < arr ! q" using scan_down_spec [of arr t j] assms by auto
    with assms show False by simp
  qed
  moreover have "scan_down arr t j < int (length arr)" using scan_down_le [of arr t j] assms by linarith
  ultimately show ?thesis using scan_down_spec [of arr t j] assms by auto
qed


lemma swap_Some:
  assumes "0 \<le> i" "i < int (length arr)" "0 \<le> j" "j < int (length arr)"
  shows "\<exists>arr1. swap arr i j = Some arr1 \<and> length arr1 = length arr \<and> mset arr1 = mset arr
           \<and> arr1 ! nat i = arr ! nat j \<and> arr1 ! nat j = arr ! nat i
           \<and> (\<forall>p. int p \<noteq> i \<and> int p \<noteq> j \<longrightarrow> arr1 ! p = arr ! p)"
proof -
  let ?a = "arr[nat i := arr ! nat j, nat j := arr ! nat i]"
  have b: "nat i < length arr" "nat j < length arr" using assms by simp_all
  have "swap arr i j = Some ?a" using assms by (simp add: swap_def)
  moreover have "mset ?a = mset arr" using b by (simp add: mset_swap)
  moreover have "?a ! nat i = arr ! nat j" using b by (simp add: nth_list_update)
  moreover have "?a ! nat j = arr ! nat i" using b by (simp add: nth_list_update)
  moreover have "\<forall>p. int p \<noteq> i \<and> int p \<noteq> j \<longrightarrow> ?a ! p = arr ! p"
    using assms by (auto simp: nth_list_update)
  ultimately show ?thesis by simp
qed

lemma sweep_post:
  assumes "0 \<le> left" "right < int (length arr)" "left \<le> i" "j \<le> right" "i \<le> j + 1"
    and "\<forall>p. left \<le> int p \<and> int p < i \<longrightarrow> arr ! p \<le> t"
    and "\<forall>p. j < int p \<and> int p \<le> right \<longrightarrow> t \<le> arr ! p"
    and "i \<le> right \<longrightarrow> t \<le> arr ! nat i"
    and "left \<le> j \<longrightarrow> arr ! nat j \<le> t"
  shows "\<exists>arr' j'. sweep arr t i j = Some (arr', j') \<and> length arr' = length arr \<and> mset arr' = mset arr
     \<and> i - 1 \<le> j' \<and> j' \<le> j
     \<and> (i < j \<longrightarrow> i \<le> j' \<and> j' < j \<and> arr' ! nat i = arr ! nat j \<and> arr' ! nat j = arr ! nat i)
     \<and> (\<forall>p. \<not> (i \<le> int p \<and> int p \<le> j) \<longrightarrow> arr' ! p = arr ! p)
     \<and> (\<forall>p. left \<le> int p \<and> int p \<le> j' \<longrightarrow> arr' ! p \<le> t)
     \<and> (\<forall>p. j' < int p \<and> int p \<le> right \<longrightarrow> t \<le> arr' ! p)"
  using assms
proof (induction arr t i j rule: sweep.induct)
  case (1 arr t i j)
  show ?case
  proof (cases "i < j")
    case False
    have "arr ! p \<le> t" if "left \<le> int p" "int p \<le> j" for p
    proof (cases "int p < i")
      case True
      with that "1.prems" show ?thesis by blast
    next
      case False
      with that \<open>\<not> i < j\<close> have "int p = j" by linarith
      then have "nat j = p" by simp
      with that "1.prems" show ?thesis by auto
    qed
    moreover have "sweep arr t i j = Some (arr, j)"
      using False by (subst sweep.simps) simp
    ultimately show ?thesis using "1.prems" False by auto
  next
    case True
    have bi: "0 \<le> i" "i < int (length arr)" and bj: "0 \<le> j" "j < int (length arr)"
      using True "1.prems" by linarith+
    from swap_Some [OF bi bj] obtain arr1 where
      sw: "swap arr i j = Some arr1" and len1: "length arr1 = length arr"
      and ms1: "mset arr1 = mset arr"
      and ai: "arr1 ! nat i = arr ! nat j" and aj: "arr1 ! nat j = arr ! nat i"
      and oth: "\<forall>p. int p \<noteq> i \<and> int p \<noteq> j \<longrightarrow> arr1 ! p = arr ! p"
      by blast
    define i1 where "i1 = scan_up arr1 t (i + 1)"
    define j1 where "j1 = scan_down arr1 t (j - 1)"
    have lei: "arr1 ! nat i \<le> t" using ai "1.prems" True by simp
    have gej: "t \<le> arr1 ! nat j" using aj "1.prems" True by simp
    have up: "i1 \<le> j \<and> t \<le> arr1 ! nat i1"
      unfolding i1_def using scan_up_stops [of "i + 1" "nat j" arr1 t] bi bj True gej len1 by simp
    have upge: "i + 1 \<le> i1" unfolding i1_def by (rule scan_up_ge)
    have uplt: "\<forall>p. i + 1 \<le> int p \<and> int p < i1 \<longrightarrow> arr1 ! p < t"
      unfolding i1_def using scan_up_spec [of "i + 1" arr1 t] by blast
    have down: "i \<le> j1 \<and> arr1 ! nat j1 \<le> t"
      unfolding j1_def using scan_down_stops [of "nat i" "j - 1" arr1 t] bi bj True lei len1 by simp
    have downle: "j1 \<le> j - 1" unfolding j1_def by (rule scan_down_le)
    have downgt: "\<forall>p. j1 < int p \<and> int p \<le> j - 1 \<longrightarrow> t < arr1 ! p"
      unfolding j1_def using scan_down_spec [of arr1 t "j - 1"] by blast
    have cross: "i1 \<le> j1 + 1"
    proof (rule ccontr)
      assume "\<not> i1 \<le> j1 + 1"
      then have a: "j1 + 1 < i1" by simp
      define q where "q = nat (j1 + 1)"
      have q: "int q = j1 + 1" unfolding q_def using down bi by simp
      have "arr1 ! q < t" using uplt q a down by simp
      moreover have "t < arr1 ! q" using downgt q a up by simp
      ultimately show False by simp
    qed
    have I1: "\<forall>p. left \<le> int p \<and> int p < i1 \<longrightarrow> arr1 ! p \<le> t"
    proof (intro allI impI)
      fix p assume p: "left \<le> int p \<and> int p < i1"
      consider "int p < i" | "int p = i" | "i + 1 \<le> int p" by linarith
      then show "arr1 ! p \<le> t"
      proof cases
        case 1
        then have "arr1 ! p = arr ! p" using oth True by simp
        with 1 p "1.prems" show ?thesis by simp
      next
        case 2
        then have "nat i = p" by simp
        with lei show ?thesis by simp
      next
        case 3
        with p uplt show ?thesis by fastforce
      qed
    qed
    have I2: "\<forall>p. j1 < int p \<and> int p \<le> right \<longrightarrow> t \<le> arr1 ! p"
    proof (intro allI impI)
      fix p assume p: "j1 < int p \<and> int p \<le> right"
      consider "j < int p" | "int p = j" | "int p \<le> j - 1" by linarith
      then show "t \<le> arr1 ! p"
      proof cases
        case 1
        then have "arr1 ! p = arr ! p" using oth True by simp
        with 1 p "1.prems" show ?thesis by simp
      next
        case 2
        then have "nat j = p" by simp
        with gej show ?thesis by simp
      next
        case 3
        with p downgt show ?thesis by fastforce
      qed
    qed
    have "\<exists>arr' j'. sweep arr1 t i1 j1 = Some (arr', j') \<and> length arr' = length arr1
       \<and> mset arr' = mset arr1
       \<and> i1 - 1 \<le> j' \<and> j' \<le> j1
       \<and> (i1 < j1 \<longrightarrow> i1 \<le> j' \<and> j' < j1 \<and> arr' ! nat i1 = arr1 ! nat j1 \<and> arr' ! nat j1 = arr1 ! nat i1)
       \<and> (\<forall>p. \<not> (i1 \<le> int p \<and> int p \<le> j1) \<longrightarrow> arr' ! p = arr1 ! p)
       \<and> (\<forall>p. left \<le> int p \<and> int p \<le> j' \<longrightarrow> arr' ! p \<le> t)
       \<and> (\<forall>p. j' < int p \<and> int p \<le> right \<longrightarrow> t \<le> arr' ! p)"
      unfolding i1_def j1_def
    proof (rule "1.IH" [OF True sw])
      show "0 \<le> left" by (rule "1.prems")
      show "right < int (length arr1)" using "1.prems" len1 by simp
      show "left \<le> scan_up arr1 t (i + 1)" using upge "1.prems" unfolding i1_def by linarith
      show "scan_down arr1 t (j - 1) \<le> right" using downle "1.prems" unfolding j1_def by linarith
      show "scan_up arr1 t (i + 1) \<le> scan_down arr1 t (j - 1) + 1"
        using cross unfolding i1_def j1_def .
      show "\<forall>p. left \<le> int p \<and> int p < scan_up arr1 t (i + 1) \<longrightarrow> arr1 ! p \<le> t"
        using I1 unfolding i1_def .
      show "\<forall>p. scan_down arr1 t (j - 1) < int p \<and> int p \<le> right \<longrightarrow> t \<le> arr1 ! p"
        using I2 unfolding j1_def .
      show "scan_up arr1 t (i + 1) \<le> right \<longrightarrow> t \<le> arr1 ! nat (scan_up arr1 t (i + 1))"
        using up unfolding i1_def by simp
      show "left \<le> scan_down arr1 t (j - 1) \<longrightarrow> arr1 ! nat (scan_down arr1 t (j - 1)) \<le> t"
        using down unfolding j1_def by simp
    qed
    then obtain arr' j' where
      r: "sweep arr1 t i1 j1 = Some (arr', j')" and len': "length arr' = length arr1"
      and ms': "mset arr' = mset arr1" and jb: "i1 - 1 \<le> j'" "j' \<le> j1"
      and fr: "\<forall>p. \<not> (i1 \<le> int p \<and> int p \<le> j1) \<longrightarrow> arr' ! p = arr1 ! p"
      and lo: "\<forall>p. left \<le> int p \<and> int p \<le> j' \<longrightarrow> arr' ! p \<le> t"
      and hi: "\<forall>p. j' < int p \<and> int p \<le> right \<longrightarrow> t \<le> arr' ! p"
      by blast
    have "sweep arr t i j = Some (arr', j')"
      using True sw r unfolding i1_def j1_def by (subst sweep.simps) simp
    moreover have "\<forall>p. \<not> (i \<le> int p \<and> int p \<le> j) \<longrightarrow> arr' ! p = arr ! p"
    proof (intro allI impI)
      fix p assume p: "\<not> (i \<le> int p \<and> int p \<le> j)"
      then have "\<not> (i1 \<le> int p \<and> int p \<le> j1)" using upge downle by linarith
      then have "arr' ! p = arr1 ! p" using fr by blast
      also have "arr1 ! p = arr ! p" using oth p True by auto
      finally show "arr' ! p = arr ! p" .
    qed
    moreover have "i \<le> j' \<and> j' < j" using jb upge downle by linarith
    moreover have "arr' ! nat i = arr ! nat j"
    proof -
      have "\<not> (i1 \<le> int (nat i) \<and> int (nat i) \<le> j1)" using upge bi by simp
      then have "arr' ! nat i = arr1 ! nat i" using fr by blast
      with ai show ?thesis by simp
    qed
    moreover have "arr' ! nat j = arr ! nat i"
    proof -
      have "\<not> (i1 \<le> int (nat j) \<and> int (nat j) \<le> j1)" using downle bj by simp
      then have "arr' ! nat j = arr1 ! nat j" using fr by blast
      with aj show ?thesis by simp
    qed
    ultimately show ?thesis using len' len1 ms' ms1 lo hi by auto
  qed
qed


lemma select_step_post:
  assumes "0 \<le> left" "left < right" "right < int (length arr)" "0 \<le> k" "k < int (length arr)"
  shows "\<exists>arr4 j. select_step arr k left right = Some (arr4, j)
     \<and> length arr4 = length arr \<and> mset arr4 = mset arr
     \<and> left \<le> j \<and> j \<le> right
     \<and> arr4 ! nat j = arr ! nat k
     \<and> (\<forall>p. left \<le> int p \<and> int p \<le> j \<longrightarrow> arr4 ! p \<le> arr ! nat k)
     \<and> (\<forall>p. j \<le> int p \<and> int p \<le> right \<longrightarrow> arr ! nat k \<le> arr4 ! p)
     \<and> (\<forall>p. \<not> (left \<le> int p \<and> int p \<le> right) \<and> int p \<noteq> k \<longrightarrow> arr4 ! p = arr ! p)
     \<and> arr ! nat right \<le> arr4 ! nat right"
proof -
  define t where "t = arr ! nat k"
  have bl: "0 \<le> left" "left < int (length arr)" and br: "0 \<le> right" "right < int (length arr)"
    using assms by linarith+
  have gt: "at_index arr k = Some t" using assms by (simp add: at_index_def t_def)
  from swap_Some [OF bl assms(4,5)] obtain arr1 where
    sw1: "swap arr left k = Some arr1" and len1: "length arr1 = length arr"
    and ms1: "mset arr1 = mset arr"
    and a1l: "arr1 ! nat left = t" and a1k: "arr1 ! nat k = arr ! nat left"
    and oth1: "\<forall>p. int p \<noteq> left \<and> int p \<noteq> k \<longrightarrow> arr1 ! p = arr ! p"
    unfolding t_def by blast
  define r where "r = arr1 ! nat right"
  have gr: "at_index arr1 right = Some r" using br len1 by (simp add: at_index_def r_def)
  have rr: "arr ! nat right \<le> max r t"
  proof (cases "k = right")
    case True
    then show ?thesis by (simp add: t_def)
  next
    case False
    then have "arr1 ! nat right = arr ! nat right" using oth1 assms br by simp
    then show ?thesis by (simp add: r_def)
  qed
  obtain arr2 where
    sw2: "(if r > t then swap arr1 left right else Some arr1) = Some arr2"
    and len2: "length arr2 = length arr" and ms2: "mset arr2 = mset arr"
    and a2l: "arr2 ! nat left = max r t" and a2r: "arr2 ! nat right = min r t"
    and oth2: "\<forall>p. \<not> (left \<le> int p \<and> int p \<le> right) \<and> int p \<noteq> k \<longrightarrow> arr2 ! p = arr ! p"
  proof (cases "r > t")
    case True
    from swap_Some [of left arr1 right] bl br len1 obtain a where
      a: "swap arr1 left right = Some a" "length a = length arr1" "mset a = mset arr1"
      "a ! nat left = arr1 ! nat right" "a ! nat right = arr1 ! nat left"
      and otha: "\<forall>p. int p \<noteq> left \<and> int p \<noteq> right \<longrightarrow> a ! p = arr1 ! p"
      by auto
    have "\<forall>p. \<not> (left \<le> int p \<and> int p \<le> right) \<and> int p \<noteq> k \<longrightarrow> a ! p = arr ! p"
    proof (intro allI impI)
      fix p assume p: "\<not> (left \<le> int p \<and> int p \<le> right) \<and> int p \<noteq> k"
      then have "int p \<noteq> left \<and> int p \<noteq> right" using assms(2) by linarith
      with otha oth1 p show "a ! p = arr ! p" by simp
    qed
    moreover have "a ! nat left = max r t" "a ! nat right = min r t"
      using a a1l True by (simp_all add: r_def)
    ultimately show ?thesis using that [of a] a True len1 ms1 by simp
  next
    case False
    have "\<forall>p. \<not> (left \<le> int p \<and> int p \<le> right) \<and> int p \<noteq> k \<longrightarrow> arr1 ! p = arr ! p"
    proof (intro allI impI)
      fix p assume p: "\<not> (left \<le> int p \<and> int p \<le> right) \<and> int p \<noteq> k"
      then have "int p \<noteq> left" using assms(2) by linarith
      with oth1 p show "arr1 ! p = arr ! p" by simp
    qed
    moreover have "arr1 ! nat left = max r t" "arr1 ! nat right = min r t"
      using a1l False by (simp_all add: r_def)
    ultimately show ?thesis using that [of arr1] False len1 ms1 by simp
  qed
  have "\<exists>arr' j'. sweep arr2 t left right = Some (arr', j') \<and> length arr' = length arr2
     \<and> mset arr' = mset arr2
     \<and> left - 1 \<le> j' \<and> j' \<le> right
     \<and> (left < right \<longrightarrow> left \<le> j' \<and> j' < right
            \<and> arr' ! nat left = arr2 ! nat right \<and> arr' ! nat right = arr2 ! nat left)
     \<and> (\<forall>p. \<not> (left \<le> int p \<and> int p \<le> right) \<longrightarrow> arr' ! p = arr2 ! p)
     \<and> (\<forall>p. left \<le> int p \<and> int p \<le> j' \<longrightarrow> arr' ! p \<le> t)
     \<and> (\<forall>p. j' < int p \<and> int p \<le> right \<longrightarrow> t \<le> arr' ! p)"
    by (rule sweep_post) (use assms len2 a2l a2r in auto)
  then obtain arr3 j where
    sw3: "sweep arr2 t left right = Some (arr3, j)" and len3': "length arr3 = length arr2"
    and ms3': "mset arr3 = mset arr2"
    and imp3: "left < right \<longrightarrow> left \<le> j \<and> j < right
            \<and> arr3 ! nat left = arr2 ! nat right \<and> arr3 ! nat right = arr2 ! nat left"
    and oth3': "\<forall>p. \<not> (left \<le> int p \<and> int p \<le> right) \<longrightarrow> arr3 ! p = arr2 ! p"
    and lo3: "\<forall>p. left \<le> int p \<and> int p \<le> j \<longrightarrow> arr3 ! p \<le> t"
    and hi3: "\<forall>p. j < int p \<and> int p \<le> right \<longrightarrow> t \<le> arr3 ! p"
    by blast
  have len3: "length arr3 = length arr" and ms3: "mset arr3 = mset arr"
    using len3' ms3' len2 ms2 by simp_all
  have jb: "left \<le> j" "j < right" using imp3 assms(2) by simp_all
  have a3l: "arr3 ! nat left = min r t" and a3r: "arr3 ! nat right = max r t"
    using imp3 assms(2) a2l a2r by simp_all
  have oth3: "\<forall>p. \<not> (left \<le> int p \<and> int p \<le> right) \<and> int p \<noteq> k \<longrightarrow> arr3 ! p = arr ! p"
    using oth3' oth2 by simp
  have gl: "at_index arr3 left = Some (min r t)" using bl len3 a3l by (simp add: at_index_def)
  have bj: "0 \<le> j" "j < int (length arr3)" "0 \<le> j + 1" "j + 1 < int (length arr3)"
    using jb bl br len3 by linarith+
  show ?thesis
  proof (cases "min r t = t")
    case True
    from swap_Some [of left arr3 j] bl bj len3 obtain arr4 where
      sw4: "swap arr3 left j = Some arr4" and len4: "length arr4 = length arr3"
      and ms4: "mset arr4 = mset arr3"
      and a4l: "arr4 ! nat left = arr3 ! nat j" and a4j: "arr4 ! nat j = arr3 ! nat left"
      and oth4: "\<forall>p. int p \<noteq> left \<and> int p \<noteq> j \<longrightarrow> arr4 ! p = arr3 ! p"
      by auto
    have res: "select_step arr k left right = Some (arr4, j)"
      unfolding select_step_def using gt sw1 gr sw2 sw3 gl sw4 True by simp
    have j3: "arr3 ! nat j \<le> t" using lo3 [rule_format, of "nat j"] jb bj by simp
    have lo: "\<forall>p. left \<le> int p \<and> int p \<le> j \<longrightarrow> arr4 ! p \<le> t"
    proof (intro allI impI)
      fix p assume p: "left \<le> int p \<and> int p \<le> j"
      consider "int p = left" | "int p = j" | "int p \<noteq> left \<and> int p \<noteq> j" by blast
      then show "arr4 ! p \<le> t"
      proof cases
        case 1
        then have "nat left = p" by simp
        with a4l j3 show ?thesis by simp
      next
        case 2
        then have "nat j = p" by simp
        with a4j a3l True show ?thesis by simp
      next
        case 3
        with oth4 lo3 p show ?thesis by simp
      qed
    qed
    have hi: "\<forall>p. j \<le> int p \<and> int p \<le> right \<longrightarrow> t \<le> arr4 ! p"
    proof (intro allI impI)
      fix p assume p: "j \<le> int p \<and> int p \<le> right"
      show "t \<le> arr4 ! p"
      proof (cases "int p = j")
        case True
        then have "nat j = p" by simp
        with a4j a3l \<open>min r t = t\<close> show ?thesis by simp
      next
        case False
        then have "int p \<noteq> left \<and> int p \<noteq> j" using p jb by linarith
        with oth4 hi3 p False show ?thesis by simp
      qed
    qed
    have "arr4 ! nat right = arr3 ! nat right" using oth4 jb br assms by simp
    then have rt: "arr ! nat right \<le> arr4 ! nat right" using a3r rr by simp
    have fr: "\<forall>p. \<not> (left \<le> int p \<and> int p \<le> right) \<and> int p \<noteq> k \<longrightarrow> arr4 ! p = arr ! p"
    proof (intro allI impI)
      fix p assume p: "\<not> (left \<le> int p \<and> int p \<le> right) \<and> int p \<noteq> k"
      then have "int p \<noteq> left \<and> int p \<noteq> j" using jb by linarith
      then have "arr4 ! p = arr3 ! p" using oth4 by blast
      with oth3 p show "arr4 ! p = arr ! p" by simp
    qed
    have "arr4 ! nat j = t" using a4j a3l True by simp
    moreover have "length arr4 = length arr" "mset arr4 = mset arr" "j \<le> right"
      using len4 len3 ms4 ms3 jb by simp_all
    ultimately show ?thesis using res jb(1) lo hi fr rt unfolding t_def by blast
  next
    case False
    then have rlt: "r < t" by (simp add: min_def split: if_splits)
    from swap_Some [of "j + 1" arr3 right] br bj len3 obtain arr4 where
      sw4: "swap arr3 (j + 1) right = Some arr4" and len4: "length arr4 = length arr3"
      and ms4: "mset arr4 = mset arr3"
      and a4j: "arr4 ! nat (j + 1) = arr3 ! nat right" and a4r: "arr4 ! nat right = arr3 ! nat (j + 1)"
      and oth4: "\<forall>p. int p \<noteq> j + 1 \<and> int p \<noteq> right \<longrightarrow> arr4 ! p = arr3 ! p"
      by auto
    have gl': "at_index arr3 left = Some r" "r \<noteq> t" using gl rlt by simp_all
    have res: "select_step arr k left right = Some (arr4, j + 1)"
      unfolding select_step_def using gt sw1 gr sw2 sw3 gl' sw4 by simp
    have a3rt: "arr3 ! nat right = t" using a3r rlt by simp
    have j3: "t \<le> arr3 ! nat (j + 1)"
      using hi3 [rule_format, of "nat (j + 1)"] jb bj by simp
    have lo: "\<forall>p. left \<le> int p \<and> int p \<le> j + 1 \<longrightarrow> arr4 ! p \<le> t"
    proof (intro allI impI)
      fix p assume p: "left \<le> int p \<and> int p \<le> j + 1"
      show "arr4 ! p \<le> t"
      proof (cases "int p = j + 1")
        case True
        then have "nat (j + 1) = p" by simp
        with a4j a3rt show ?thesis by simp
      next
        case False
        then have "int p \<noteq> j + 1 \<and> int p \<noteq> right" using p jb by linarith
        with oth4 lo3 p False show ?thesis by simp
      qed
    qed
    have hi: "\<forall>p. j + 1 \<le> int p \<and> int p \<le> right \<longrightarrow> t \<le> arr4 ! p"
    proof (intro allI impI)
      fix p assume p: "j + 1 \<le> int p \<and> int p \<le> right"
      consider "int p = j + 1" | "int p = right" | "int p \<noteq> j + 1 \<and> int p \<noteq> right" by blast
      then show "t \<le> arr4 ! p"
      proof cases
        case 1
        then have "nat (j + 1) = p" by simp
        with a4j a3rt show ?thesis by simp
      next
        case 2
        then have "nat right = p" by simp
        with a4r j3 show ?thesis by simp
      next
        case 3
        with oth4 hi3 p show ?thesis by simp
      qed
    qed
    have "t \<le> arr4 ! nat right" using hi [rule_format, of "nat right"] jb br by simp
    then have rt: "arr ! nat right \<le> arr4 ! nat right" using rr rlt by simp
    have fr: "\<forall>p. \<not> (left \<le> int p \<and> int p \<le> right) \<and> int p \<noteq> k \<longrightarrow> arr4 ! p = arr ! p"
    proof (intro allI impI)
      fix p assume p: "\<not> (left \<le> int p \<and> int p \<le> right) \<and> int p \<noteq> k"
      then have "int p \<noteq> j + 1 \<and> int p \<noteq> right" using jb by linarith
      then have "arr4 ! p = arr3 ! p" using oth4 by blast
      with oth3 p show "arr4 ! p = arr ! p" by simp
    qed
    have "arr4 ! nat (j + 1) = t" using a4j a3rt by simp
    moreover have "length arr4 = length arr" "mset arr4 = mset arr" "left \<le> j + 1" "j + 1 \<le> right"
      using len4 len3 ms4 ms3 jb by simp_all
    ultimately show ?thesis using res lo hi fr rt unfolding t_def by blast
  qed
qed


lemma floyd_rivest_narrows:
  assumes "right - left > 600" and "floyd_rivest_bounds k left right = (newLeft, newRight)"
  shows "left \<le> newLeft \<and> newRight \<le> right \<and> newRight - newLeft < right - left"
proof -
  define n where "n = real_of_int (right - left + 1)"
  define m where "m = real_of_int (k - left + 1)"
  define s where "s = 0.5 * exp (2 * ln n / 3)"
  define sd where "sd = 0.5 * sqrt (ln n * s * (n - s) / n) * (if m - n / 2 < 0 then - 1 else 1)"
  define A where "A = real_of_int k - m * s / n + sd"
  define B where "B = real_of_int k + (n - m) * s / n + sd"
  have nl: "newLeft = max left \<lfloor>A\<rfloor>" and nr: "newRight = min right \<lfloor>B\<rfloor>"
    using assms(2) unfolding floyd_rivest_bounds_def Let_def A_def B_def sd_def s_def m_def n_def
    by simp_all
  have n: "n > 601" using assms(1) by (simp add: n_def)
  then have "0 \<le> ln n" by simp
  then have "exp (2 * ln n / 3) \<le> exp (ln n)" by simp
  also have "exp (ln n) = n" using n by simp
  finally have s: "s \<le> n / 2" by (simp add: s_def)
  have "B - A = (n - m) * s / n + m * s / n" by (simp add: A_def B_def)
  also have "\<dots> = s" using n by (simp add: field_simps)
  finally have BA: "B = A + s" by simp
  have "real_of_int \<lfloor>B\<rfloor> \<le> B" by simp
  moreover have "A < real_of_int \<lfloor>A\<rfloor> + 1" by linarith
  ultimately have "real_of_int \<lfloor>B\<rfloor> - real_of_int \<lfloor>A\<rfloor> < n / 2 + 1" using BA s by linarith
  also have "n / 2 + 1 < n - 1" using n by simp
  finally have "real_of_int (\<lfloor>B\<rfloor> - \<lfloor>A\<rfloor>) < real_of_int (right - left)"
    by (simp add: n_def)
  then have "\<lfloor>B\<rfloor> - \<lfloor>A\<rfloor> < right - left" by linarith
  then show ?thesis unfolding nl nr by linarith
qed

lemma select_step_in_range:
  assumes "select_step arr k left right = Some (arr', j)" and "left < right"
  shows "left \<le> j \<and> j \<le> right"
proof -
  from assms(1) obtain t arr1 r where
    "at_index arr k = Some t" "swap arr left k = Some arr1" "at_index arr1 right = Some r"
    unfolding select_step_def by (auto simp: bind_eq_Some_conv)
  then have "0 \<le> k \<and> k < int (length arr) \<and> 0 \<le> left \<and> right < int (length arr)"
    by (auto simp: at_index_def swap_def split: if_splits)
  with select_step_post [of left right arr k] assms show ?thesis by auto
qed

subsection \<open>The selection loop\<close>

text \<open>
  The loop body as one recursive call per iteration. With no \<open>left\<close> and \<open>right\<close> given,
  JavaScript calls it with \<open>left = 0\<close> and \<open>right = arr.length - 1\<close>.
\<close>

function quickselect :: "real list \<Rightarrow> int \<Rightarrow> int \<Rightarrow> int \<Rightarrow> real list option" where
  "quickselect arr k left right =
     (if right > left then do {
        arr1 \<leftarrow> (if right - left > 600
                 then (case floyd_rivest_bounds k left right of
                         (newLeft, newRight) \<Rightarrow> quickselect arr k newLeft newRight)
                 else Some arr);
        (arr2, j) \<leftarrow> select_step arr1 k left right;
        quickselect arr2 k (if j \<le> k then j + 1 else left) (if k \<le> j then j - 1 else right)
      }
      else Some arr)"
  by pat_completeness auto
termination
proof (relation "measure (\<lambda>(arr, k, left, right). nat (right - left))", goal_cases)
  case 1
  show ?case by simp
next
  case (2 arr k left right newLeft newRight)
  then have eq: "floyd_rivest_bounds k left right = (newLeft, newRight)" by simp
  from floyd_rivest_narrows [OF 2(2) eq] 2(1) show ?case by simp
next
  case (3 arr k left right arr1 res arr2 j)
  then have "left \<le> j \<and> j \<le> right"
    using select_step_in_range [of arr1 k left right arr2 j] by simp
  with 3(1) show ?case by auto
qed

declare quickselect.simps [simp del]

section \<open>getChannelStats\<close>

text \<open>
  The arithmetic of \<^verbatim>\<open>getChannelStats\<close> on JavaScript numbers. The samples of the typed
  array are finite reals; \<^verbatim>\<open>Infinity\<close>, \<^verbatim>\<open>NaN\<close> and \<^verbatim>\<open>undefined\<close> arise only the way
  the code produces them.

  \<open>js_lt\<close> is \<^verbatim>\<open><\<close>: false as soon as one side is \<^verbatim>\<open>NaN\<close> or \<^verbatim>\<open>undefined\<close>.
  \<open>js_div x n\<close> is \<^verbatim>\<open>x / n\<close> for a finite \<open>x\<close> and an array length \<open>n\<close>, with
  \<^verbatim>\<open>0 / 0 = NaN\<close>. \<open>js_sqrt\<close> is \<^verbatim>\<open>** 0.5\<close>. \<open>js_index\<close> is a read \<^verbatim>\<open>arr[i]\<close> whose
  result is kept as a value. \<open>js_or0\<close> is \<^verbatim>\<open>|| 0\<close>: the falsy numbers \<^verbatim>\<open>0\<close>, \<^verbatim>\<open>NaN\<close> and
  \<^verbatim>\<open>undefined\<close> give \<^verbatim>\<open>0\<close>.
\<close>

fun js_lt :: "jsval \<Rightarrow> jsval \<Rightarrow> bool" where
  "js_lt (Num x) (Num y) = (x < y)"
| "js_lt (Num x) PosInfinity = True"
| "js_lt NegInfinity (Num y) = True"
| "js_lt NegInfinity PosInfinity = True"
| "js_lt _ _ = False"

definition js_div :: "real \<Rightarrow> nat \<Rightarrow> jsval" where
  "js_div x n =
     (if n \<noteq> 0 then Num (x / real n)
      else if x = 0 then NaN else if 0 < x then PosInfinity else NegInfinity)"

fun js_sqrt :: "jsval \<Rightarrow> jsval" where
  "js_sqrt (Num x) = (if 0 \<le> x then Num (sqrt x) else NaN)"
| "js_sqrt PosInfinity = PosInfinity"
| "js_sqrt NegInfinity = PosInfinity"
| "js_sqrt NaN = NaN"
| "js_sqrt Undefined = NaN"

definition js_index :: "real list \<Rightarrow> int \<Rightarrow> jsval" where
  "js_index arr i = (case at_index arr i of Some x \<Rightarrow> Num x | None \<Rightarrow> Undefined)"

fun js_or0 :: "jsval \<Rightarrow> jsval" where
  "js_or0 (Num x) = (if x = 0 then Num 0 else Num x)"
| "js_or0 PosInfinity = PosInfinity"
| "js_or0 NegInfinity = NegInfinity"
| "js_or0 NaN = Num 0"
| "js_or0 Undefined = Num 0"

text \<open>The object that \<^verbatim>\<open>getChannelStats\<close> returns; the two arrays are lists.\<close>

record stats =
  mean :: jsval
  sd :: jsval
  q1 :: jsval
  q3 :: jsval
  median :: jsval
  domain :: "jsval list"
  contrastLimits :: "jsval list"

text \<open>
  The first loop, \<^verbatim>\<open>while (len--)\<close>, visits the samples from the last to the first and
  updates \<^verbatim>\<open>min\<close>, \<^verbatim>\<open>max\<close> and \<^verbatim>\<open>total\<close>, starting from \<^verbatim>\<open>Infinity\<close>, \<^verbatim>\<open>-Infinity\<close>
  and 0.
\<close>

definition range_pass :: "real list \<Rightarrow> jsval \<times> jsval \<times> real" where
  "range_pass arr =
     fold (\<lambda>x (mn, mx, sum_total).
             (if js_lt (Num x) mn then Num x else mn,
              if js_lt mx (Num x) then Num x else mx,
              sum_total + x))
          (rev arr) (PosInfinity, NegInfinity, 0)"

definition cutoffPercentile :: real where
  "cutoffPercentile = 0.0005"

text \<open>
  \<^verbatim>\<open>getChannelStats\<close> reorders its argument in place, so the model returns the statistics
  together with the buffer as the call leaves it. \<^verbatim>\<open>arr.filter\<close> makes a new array, so
  the last two selections do not touch the buffer. In the second loop the body runs only
  for a non-empty array, where \<^verbatim>\<open>mean\<close> is the finite number \<open>total / n\<close>. The result is
  \<open>None\<close> only if a \<^verbatim>\<open>quickselect\<close> call swaps outside its array.
\<close>

definition getChannelStats :: "real list \<Rightarrow> (stats \<times> real list) option" where
  "getChannelStats arr =
     (case range_pass arr of (mn, mx, sum_total) \<Rightarrow>
      let n = length arr;
          mean = js_div sum_total n;
          sumSquared = fold (\<lambda>x s. s + (x - sum_total / real n)\<^sup>2) (rev arr) 0;
          sd = js_sqrt (js_div sumSquared n);
          mid = int (n div 2);
          firstQuartileLocation = int (n div 4);
          thirdQuartileLocation = 3 * int (n div 4)
      in do {
        arr1 \<leftarrow> quickselect arr mid 0 (int n - 1);
        let median = js_index arr1 mid;
        arr2 \<leftarrow> quickselect arr1 firstQuartileLocation 0 mid;
        let q1 = js_index arr2 firstQuartileLocation;
        arr3 \<leftarrow> quickselect arr2 thirdQuartileLocation mid (int n - 1);
        let q3 = js_index arr3 thirdQuartileLocation;
        let cutoffArr = filter (\<lambda>i. i > 0) arr3;
        let topCutoffLocation = \<lfloor>real (length cutoffArr) * (1 - cutoffPercentile)\<rfloor>;
        let bottomCutoffLocation = \<lfloor>real (length cutoffArr) * cutoffPercentile\<rfloor>;
        cutoffArr1 \<leftarrow> quickselect cutoffArr topCutoffLocation 0 (int (length cutoffArr) - 1);
        cutoffArr2 \<leftarrow> quickselect cutoffArr1 bottomCutoffLocation 0 topCutoffLocation;
        let contrastLimits = [js_or0 (js_index cutoffArr2 bottomCutoffLocation),
                              js_or0 (js_index cutoffArr2 topCutoffLocation)];
        Some (\<lparr>mean = mean, sd = sd, q1 = q1, q3 = q3, median = median,
               domain = [mn, mx], contrastLimits = contrastLimits\<rparr>, arr3)
      })"

subsection \<open>Buffers in a store\<close>

text \<open>
  For statements about separate copies of a buffer: a store maps addresses to typed
  arrays, and a call on the buffer at address \<open>a\<close> writes the reordered buffer back there.
\<close>

type_synonym heap = "nat \<Rightarrow> real list"

definition getChannelStats_at :: "nat \<Rightarrow> heap \<Rightarrow> (stats \<times> heap) option" where
  "getChannelStats_at a h =
     (case getChannelStats (h a) of
        None \<Rightarrow> None
      | Some (st, arr') \<Rightarrow> Some (st, h(a := arr')))"

section \<open>getSingleSelectionStats3D\<close>

text \<open>
  From \<^verbatim>\<open>avivator/src/utils.js\<close>. A pixel source is what the function reads of one
  resolution level: its \<^verbatim>\<open>shape\<close>, its \<^verbatim>\<open>labels\<close>, and \<^verbatim>\<open>getRaster\<close>, which yields the
  \<^verbatim>\<open>data\<close> of the raster for a selection or fails (a rejected promise). The \<^verbatim>\<open>await\<close>s
  run one after the other, so the function is a sequence of fallible steps.
\<close>

record pixel_source =
  shape :: "int list"
  labels :: "string list"
  getRaster :: "(string \<rightharpoonup> int) \<Rightarrow> error + real list"















section \<open>Notions for stating what the selections achieve\<close>

text \<open>
  What a call \<^verbatim>\<open>quickselect(arr, k, left, right)\<close> leaves, as a relation between the array
  before and after: the same elements; nothing moved when the range has at most one
  position; nothing moved outside the range, but for position \<open>k\<close>; the element at
  \<open>right\<close> not smaller than before; and, for \<open>k\<close> in the range, the range partitioned
  around position \<open>k\<close>.
\<close>

definition selected :: "real list \<Rightarrow> real list \<Rightarrow> int \<Rightarrow> int \<Rightarrow> int \<Rightarrow> bool" where
  "selected arr arr' k left right \<longleftrightarrow>
     length arr' = length arr \<and> mset arr' = mset arr
     \<and> (right \<le> left \<longrightarrow> arr' = arr)
     \<and> (\<forall>p. \<not> (left \<le> int p \<and> int p \<le> right) \<and> int p \<noteq> k \<longrightarrow> arr' ! p = arr ! p)
     \<and> arr ! nat right \<le> arr' ! nat right
     \<and> (left \<le> k \<and> k \<le> right \<longrightarrow>
          (\<forall>p. left \<le> int p \<and> int p \<le> k \<longrightarrow> arr' ! p \<le> arr' ! nat k)
        \<and> (\<forall>p. k \<le> int p \<and> int p \<le> right \<longrightarrow> arr' ! nat k \<le> arr' ! p))"

text \<open>
  A list is partitioned at \<open>k\<close> when nothing before \<open>k\<close> is larger and nothing after it is
  smaller than its \<open>k\<close>-th element.
\<close>

definition partitioned_at :: "real list \<Rightarrow> nat \<Rightarrow> bool" where
  "partitioned_at ys k \<longleftrightarrow>
     (\<forall>p. p \<le> k \<longrightarrow> ys ! p \<le> ys ! k) \<and> (\<forall>p. k \<le> p \<and> p < length ys \<longrightarrow> ys ! k \<le> ys ! p)"

section \<open>Properties of isInterleaved, getDims and the tile size\<close>

lemma index_last: "at_index xs (int (length xs) - 1) = (if xs = [] then None else Some (last xs))"
  by (cases xs rule: rev_cases) (simp_all add: at_index_def nth_append)

text \<open>
  C8. For every shape, \<open>isInterleaved\<close> is true exactly when the shape has a last element
  and that element is 3 or 4 (both copies of the function); on the documented examples,
  \<open>[1,24,24]\<close> gives false, \<open>[1,24,24,3]\<close> and \<open>[1,24,24,4]\<close> give true.
\<close>

theorem isInterleaved_iff_last:
  "(isInterleaved shp \<longleftrightarrow> shp \<noteq> [] \<and> (last shp = 3 \<or> last shp = 4))
   \<and> (isInterleaved_avivator shp \<longleftrightarrow> shp \<noteq> [] \<and> (last shp = 3 \<or> last shp = 4))
   \<and> isInterleaved [1, 24, 24] = False
   \<and> isInterleaved [1, 24, 24, 3] = True
   \<and> isInterleaved [1, 24, 24, 4] = True"
proof -
  have "isInterleaved xs \<longleftrightarrow> xs \<noteq> [] \<and> (last xs = 3 \<or> last xs = 4)" for xs
    unfolding isInterleaved_def index_last by simp
  moreover have "isInterleaved_avivator shp \<longleftrightarrow> shp \<noteq> [] \<and> (last shp = 3 \<or> last shp = 4)"
    unfolding isInterleaved_avivator_def index_last by simp
  ultimately show ?thesis by simp
qed

lemma fold_upd_lookup:
  "distinct (map fst es) \<Longrightarrow>
   fold (\<lambda>(k, v) m. m(k \<mapsto> v)) es m k = (case map_of es k of None \<Rightarrow> m k | Some v \<Rightarrow> Some v)"
proof (induction es arbitrary: m)
  case Nil
  then show ?case by simp
next
  case (Cons e es)
  obtain a b where e: "e = (a, b)" by (cases e)
  from Cons.prems e have notin: "a \<notin> fst ` set es" and d: "distinct (map fst es)" by auto
  have "k = a \<Longrightarrow> map_of es k = None" using notin by (simp add: map_of_eq_None_iff)
  with Cons.IH [OF d] e show ?case by (auto split: option.splits)
qed

lemma fold_upd_dom:
  "dom (fold (\<lambda>(k, v) m. m(k \<mapsto> v)) es m) = fst ` set es \<union> dom m"
  by (induction es arbitrary: m) (auto split: prod.splits)

lemma entries_keys: "map fst (map (\<lambda>(i, name). (name, i)) (enumerate n lbls)) = lbls"
  by (induction lbls arbitrary: n) simp_all

lemma entries_lookup:
  "distinct lbls \<Longrightarrow> i < length lbls \<Longrightarrow>
   map_of (map (\<lambda>(i, name). (name, i)) (enumerate 0 lbls)) (lbls ! i) = Some i"
proof -
  assume d: "distinct lbls" and i: "i < length lbls"
  let ?es = "map (\<lambda>(i, name). (name, i)) (enumerate 0 lbls)"
  have "distinct (map fst ?es)" using d by (simp only: entries_keys)
  moreover have "(lbls ! i, i) \<in> set ?es"
    using i by (force simp: enumerate_eq_zip in_set_zip)
  ultimately show ?thesis by (rule map_of_is_SomeI)
qed

lemma new_Map_dom: "dom (new_Map (map (\<lambda>(i, name). (name, i)) (enumerate 0 lbls))) = set lbls"
proof -
  have "fst ` set (map (\<lambda>(i, name). (name, i)) (enumerate 0 lbls)) = set lbls"
    using entries_keys [of 0 lbls] by (metis list.set_map)
  then show ?thesis by (simp add: new_Map_def fold_upd_dom)
qed

text \<open>
  C6. Building the lookup fails when a label repeats. For a duplicate-free list the
  returned lookup sends each label to its position in the list, and fails on every name
  that is not in the list. The lookup is a function of the name alone, so the order of
  the calls cannot matter.
\<close>

theorem getDims_lookup:
  "(\<not> distinct lbls \<longrightarrow> getDims lbls = Inl DuplicatedLabel)
   \<and> (distinct lbls \<longrightarrow>
        (\<exists>dims. getDims lbls = Inr dims
           \<and> (\<forall>i < length lbls. dims (lbls ! i) = Inr i)
           \<and> (\<forall>name. name \<notin> set lbls \<longrightarrow> dims name = Inl InvalidDimension)))"
proof (intro conjI impI)
  assume "\<not> distinct lbls"
  then have "card (set lbls) \<noteq> length lbls" using card_distinct by blast
  then show "getDims lbls = Inl DuplicatedLabel"
    by (simp add: getDims_def Let_def new_Map_dom)
next
  assume d: "distinct lbls"
  let ?es = "map (\<lambda>(i, name). (name, i)) (enumerate 0 lbls)"
  let ?dims = "\<lambda>name. case new_Map ?es name of
                         None \<Rightarrow> Inl InvalidDimension | Some index \<Rightarrow> Inr index"
  have de: "distinct (map fst ?es)" using d by (simp only: entries_keys)
  have lk: "new_Map ?es name = map_of ?es name" for name
    unfolding new_Map_def using fold_upd_lookup [OF de, of Map.empty name]
    by (simp split: option.splits)
  have "getDims lbls = Inr ?dims"
    using d by (simp add: getDims_def Let_def new_Map_dom distinct_card)
  moreover have "\<forall>i < length lbls. ?dims (lbls ! i) = Inr i"
    using entries_lookup [OF d] by (simp add: lk)
  moreover have "\<forall>name. name \<notin> set lbls \<longrightarrow> ?dims name = Inl InvalidDimension"
  proof (intro allI impI)
    fix name assume "name \<notin> set lbls"
    then have "name \<notin> dom (new_Map ?es)" by (simp only: new_Map_dom not_False_eq_True)
    then show "?dims name = Inl InvalidDimension" by (auto simp: domIff)
  qed
  ultimately show "\<exists>dims. getDims lbls = Inr dims
           \<and> (\<forall>i < length lbls. dims (lbls ! i) = Inr i)
           \<and> (\<forall>name. name \<notin> set lbls \<longrightarrow> dims name = Inl InvalidDimension)"
    by blast
qed

theorem getDims_lookup_witness:
  "distinct [''t'', ''z'', ''c'', ''y'', ''x'']
   \<and> (\<exists>dims. getDims [''t'', ''z'', ''c'', ''y'', ''x''] = Inr dims
         \<and> dims ''t'' = Inr 0 \<and> dims ''c'' = Inr 2 \<and> dims ''x'' = Inr 4
         \<and> dims ''hi!'' = Inl InvalidDimension)
   \<and> \<not> distinct [''t'', ''z'', ''c'', ''t'']
   \<and> getDims [''t'', ''z'', ''c'', ''t''] = Inl DuplicatedLabel"
proof -
  have d: "distinct [''t'', ''z'', ''c'', ''y'', ''x'']" by simp
  from getDims_lookup [of "[''t'', ''z'', ''c'', ''y'', ''x'']"] d
  obtain dims where g: "getDims [''t'', ''z'', ''c'', ''y'', ''x''] = Inr dims"
    and pos: "\<forall>i < length [''t'', ''z'', ''c'', ''y'', ''x''].
                dims ([''t'', ''z'', ''c'', ''y'', ''x''] ! i) = Inr i"
    and unk: "\<forall>name. name \<notin> set [''t'', ''z'', ''c'', ''y'', ''x'']
                \<longrightarrow> dims name = Inl InvalidDimension"
    by blast
  have "dims ''t'' = Inr 0" using pos [rule_format, of 0] by simp
  moreover have "dims ''c'' = Inr 2" using pos [rule_format, of 2] by simp
  moreover have "dims ''x'' = Inr 4" using pos [rule_format, of 4] by simp
  moreover have "dims ''hi!'' = Inl InvalidDimension" using unk [rule_format, of "''hi!''"] by simp
  moreover have nd: "\<not> distinct [''t'', ''z'', ''c'', ''t'']" by simp
  moreover have "getDims [''t'', ''z'', ''c'', ''t''] = Inl DuplicatedLabel"
    using getDims_lookup [of "[''t'', ''z'', ''c'', ''t'']"] nd by blast
  ultimately show ?thesis using d g by blast
qed

subsection \<open>The tile size\<close>

lemma round_half_even_error: "\<bar>of_int (round_half_even z) - z\<bar> \<le> 1 / 2"
  unfolding round_half_even_def Let_def by (auto simp: abs_if) linarith+

lemma round_half_even_int: "round_half_even (of_int m) = m"
  unfolding round_half_even_def Let_def by simp

lemma round_half_even_near:
  assumes "\<bar>z - of_int m\<bar> < 1 / 2"
  shows "round_half_even z = m"
proof -
  have "\<lfloor>z\<rfloor> = m \<or> \<lfloor>z\<rfloor> = m - 1" using assms by (auto simp: abs_if split: if_splits) linarith+
  then show ?thesis
  proof
    assume f: "\<lfloor>z\<rfloor> = m"
    then have "z - of_int m < 1 / 2" using assms by (simp add: abs_if split: if_splits)
    then show ?thesis unfolding round_half_even_def Let_def f by simp
  next
    assume f: "\<lfloor>z\<rfloor> = m - 1"
    then have "1 / 2 < z - of_int (m - 1)" using assms by (simp add: abs_if split: if_splits)
    moreover then have "\<not> z - of_int (m - 1) < 1 / 2" by simp
    ultimately show ?thesis unfolding round_half_even_def Let_def f by simp
  qed
qed

text \<open>Below 64 the nearest double is within \<open>1 / 2 ^ 48\<close> of the real it rounds.\<close>

lemma to_double_error:
  assumes "0 \<le> y" "y < 64"
  shows "\<bar>to_double y - y\<bar> \<le> 1 / 2 ^ 48"
proof (cases "y = 0")
  case True
  then show ?thesis by (simp add: to_double_def)
next
  case False
  define k where "k = \<lfloor>log 2 \<bar>y\<bar>\<rfloor>"
  define u :: real where "u = 2 powr (of_int k - 52)"
  have y: "0 < y" using assms False by simp
  have "log 2 y < log 2 64" using y assms by simp
  also have "log 2 64 = log 2 (2 ^ 6)" by simp
  also have "\<dots> = 6" by (simp only: log_pow_cancel)
  finally have "k < 6" unfolding k_def using y by (simp add: floor_less_iff)
  then have "of_int k - 52 \<le> (- 47 :: real)" by simp
  then have "u \<le> 2 powr (- 47)" unfolding u_def by (simp only: powr_le_cancel_iff) 
  have u0: "0 < u" by (simp add: u_def)
  have "to_double y - y = u * (of_int (round_half_even (y / u)) - y / u)"
    using False u0 unfolding to_double_def Let_def u_def k_def by (simp add: field_simps)
  then have "\<bar>to_double y - y\<bar> = u * \<bar>of_int (round_half_even (y / u)) - y / u\<bar>"
    using u0 by (simp add: abs_mult)
  also have "\<dots> \<le> u * (1 / 2)"
    using u0 round_half_even_error [of "y / u"] by (intro mult_left_mono) simp_all
  also have "\<dots> \<le> 2 powr (- 47) * (1 / 2)" using \<open>u \<le> 2 powr (- 47)\<close> by simp
  also have "\<dots> = 1 / 2 ^ 48" by (simp add: powr_minus_divide)
  finally show ?thesis .
qed

lemma to_double_nat:
  assumes "e < 64"
  shows "to_double (real e) = real e"
proof (cases "e = 0")
  case True
  then show ?thesis by (simp add: to_double_def)
next
  case False
  define k where "k = \<lfloor>log 2 \<bar>real e\<bar>\<rfloor>"
  define u :: real where "u = 2 powr (of_int k - 52)"
  have e: "1 \<le> real e" using False by simp
  then have "0 \<le> log 2 (real e)" by simp
  then have k0: "0 \<le> k" unfolding k_def by simp
  have "log 2 (real e) < log 2 64" using e assms by simp
  also have "log 2 64 = log 2 (2 ^ 6)" by simp
  also have "\<dots> = 6" by (simp only: log_pow_cancel)
  finally have k6: "k < 6" unfolding k_def using e by (simp add: floor_less_iff)
  have u: "u = 1 / 2 ^ nat (52 - k)"
  proof -
    have "of_int k - 52 = - real (nat (52 - k))" using k6 by simp
    then show ?thesis unfolding u_def by (simp only: powr_minus_divide powr_realpow zero_less_numeral)
  qed
  have "real e / u = of_int (int e * 2 ^ nat (52 - k))" unfolding u by simp
  then have "round_half_even (real e / u) = int e * 2 ^ nat (52 - k)"
    by (simp only: round_half_even_int)
  then have "to_double (real e) = u * of_int (int e * 2 ^ nat (52 - k))"
    using False unfolding to_double_def Let_def u_def k_def by simp
  also have "\<dots> = real e" unfolding u by simp
  finally show ?thesis .
qed


text \<open>
  The logarithm of an integer that is not a power of two keeps a distance from the
  integers: at least \<open>1 / 2 ^ (e + 1)\<close> for an integer between \<open>2 ^ e\<close> and \<open>2 ^ (e + 1)\<close>.
\<close>

lemma log2_below_next_power:
  fixes x e :: nat
  assumes "1 \<le> x" and "x < 2 ^ (e + 1)"
  shows "log 2 (real x) < real (e + 1) - 1 / 2 ^ (e + 1)"
proof -
  define P :: real where "P = 2 ^ (e + 1)"
  define t :: real where "t = 1 / 2 ^ (e + 1)"
  have P: "2 \<le> P" unfolding P_def using power_increasing [of 1 "e + 1" "2::real"] by simp
  have t: "0 < t" "t \<le> 1 / 2" "t = 1 / P" using P by (simp_all add: t_def P_def field_simps)
  have "x + 1 \<le> 2 ^ (e + 1)" using assms by simp
  then have "real (x + 1) \<le> real (2 ^ (e + 1))" by (rule of_nat_mono)
  then have "real x \<le> P - 1" by (simp add: P_def)
  also have "P - 1 = P * (1 - t)" using P t by (simp add: field_simps)
  finally have "ln (real x) \<le> ln (P * (1 - t))" using assms by simp
  also have "\<dots> = ln P + ln (1 - t)" using P t by (simp add: ln_mult)
  also have "ln (1 - t) \<le> - t" using ln_le_minus_one [of "1 - t"] t by simp
  finally have "ln (real x) \<le> ln P - t" by simp
  then have "ln (real x) / ln 2 \<le> (ln P - t) / ln 2" by (simp add: divide_right_mono)
  also have "\<dots> = log 2 P - t / ln 2" by (simp add: log_def diff_divide_distrib)
  also have "log 2 P = real (e + 1)" unfolding P_def by (simp only: log_pow_cancel)
  also have "real (e + 1) - t / ln 2 < real (e + 1) - t"
  proof -
    have "t * ln 2 < t * 1" using t ln_2_less_1 by (intro mult_strict_left_mono) simp_all
    then have "t < t / ln 2" by (simp add: field_simps)
    then show ?thesis by simp
  qed
  finally show ?thesis by (simp add: log_def t_def)
qed

lemma log2_above_power:
  fixes x e :: nat
  assumes "2 ^ e < x"
  shows "real e + 1 / 2 ^ (e + 1) \<le> log 2 (real x)"
proof -
  define P :: real where "P = 2 ^ e"
  define s :: real where "s = 1 / 2 ^ e"
  have P: "1 \<le> P" unfolding P_def by simp
  have s: "0 < s" "s \<le> 1" using P by (simp_all add: s_def P_def field_simps)
  have sP: "P * s = 1" by (simp add: s_def P_def)
  have "2 ^ e + 1 \<le> x" using assms by simp
  then have "real (2 ^ e + 1) \<le> real x" by (rule of_nat_mono)
  then have "P * (1 + s) \<le> real x" using sP by (simp add: P_def ring_distribs)
  moreover have "0 < P * (1 + s)" using P s by (intro mult_pos_pos) simp_all
  ultimately have "ln (P * (1 + s)) \<le> ln (real x)" by (subst ln_le_cancel_iff) simp_all
  moreover have "ln (P * (1 + s)) = ln P + ln (1 + s)" using P s by (simp add: ln_mult)
  moreover have "s / 2 \<le> ln (1 + s)"
  proof -
    have "ln (1 / (1 + s)) \<le> 1 / (1 + s) - 1" using s by (intro ln_le_minus_one) simp
    then have "- ln (1 + s) \<le> - (s / (1 + s))" using s by (simp add: ln_div field_simps)
    moreover have "s / 2 \<le> s / (1 + s)" using s by (intro divide_left_mono) simp_all
    ultimately show ?thesis by linarith
  qed
  ultimately have "ln P + s / 2 \<le> ln (real x)" by simp
  then have "(ln P + s / 2) / ln 2 \<le> ln (real x) / ln 2" by (simp add: divide_right_mono)
  moreover have "(ln P + s / 2) / ln 2 = log 2 P + (s / 2) / ln 2"
    by (simp add: log_def add_divide_distrib)
  moreover have "log 2 P = real e" unfolding P_def by (simp only: log_pow_cancel)
  moreover have "s / 2 \<le> (s / 2) / ln 2"
  proof -
    have "(s / 2) * ln 2 \<le> (s / 2) * 1" using s ln_2_less_1 by (intro mult_left_mono) simp_all
    then show ?thesis by (simp add: field_simps)
  qed
  ultimately have "real e + s / 2 \<le> log 2 (real x)" by (simp add: log_def)
  then show ?thesis by (simp add: s_def)
qed

text \<open>
  So a \<^verbatim>\<open>Math.log2\<close> that is accurate to \<open>1 / 2 ^ n\<close> and exact on the powers of two has
  the right integer part on every integer below \<open>2 ^ n\<close>.
\<close>

lemma prevPowerOf2_nat:
  fixes x n :: nat
  assumes acc: "\<forall>x. 1 \<le> x \<and> x \<le> 2 ^ n \<longrightarrow> \<bar>Math_log2 x - log 2 x\<bar> \<le> 1 / 2 ^ n"
    and pow: "\<forall>e<n. Math_log2 (2 ^ e) = real e"
    and x: "1 \<le> x" "x < 2 ^ n"
  shows "\<exists>e. prevPowerOf2 Math_log2 (real x) = Num (2 ^ e) \<and> 2 ^ e \<le> x \<and> x < 2 ^ (e + 1)"
proof -
  obtain e where e: "2 ^ e \<le> x" "x < 2 ^ (e + 1)"
    using ex_power_ivl1 [of 2 x] x by auto
  have "(2::nat) ^ e < 2 ^ n" using e x by linarith
  then have en: "e < n" by simp
  have fl: "\<lfloor>Math_log2 (real x)\<rfloor> = int e"
  proof (cases "x = 2 ^ e")
    case True
    then show ?thesis using pow en by simp
  next
    case False
    have xr: "1 \<le> real x \<and> real x \<le> 2 ^ n"
      using x by (metis less_imp_le of_nat_1 of_nat_le_iff of_nat_numeral of_nat_power)
    then have err: "\<bar>Math_log2 (real x) - log 2 (real x)\<bar> \<le> 1 / 2 ^ n" using acc by blast
    have "(2::real) ^ (e + 1) \<le> 2 ^ n" using en by (intro power_increasing) simp_all
    then have small: "(1::real) / 2 ^ n \<le> 1 / 2 ^ (e + 1)"
      by (intro divide_left_mono) simp_all
    have up: "log 2 (real x) < real (e + 1) - 1 / 2 ^ (e + 1)"
      using log2_below_next_power [of x e] x e by simp
    have lo: "real e + 1 / 2 ^ (e + 1) \<le> log 2 (real x)"
      using log2_above_power [of e x] e False by simp
    have "real e \<le> Math_log2 (real x) \<and> Math_log2 (real x) < real e + 1"
      using err small lo up by (simp add: abs_if split: if_splits)
    then show ?thesis by (simp add: floor_eq_iff)
  qed
  have "prevPowerOf2 Math_log2 (real x) = Num (2 powr real e)"
    using x fl by (simp add: prevPowerOf2_def)
  also have "2 powr real e = (2::real) ^ e" by (simp add: powr_realpow)
  finally show ?thesis using e by blast
qed


text \<open>
  The logarithm of \<open>2 ^ 49 - 1\<close> is closer to 49 than half the distance between the doubles
  just below 49, so its nearest double is 49.
\<close>

lemma ln2_lower: "3 / 5 \<le> ln (2::real)"
proof -
  have "exp (3 / 5 :: real) \<le> 1 + 3 / 5 + (3 / 5)\<^sup>2" by (rule exp_bound) simp_all
  also have "\<dots> \<le> 2" by (simp add: power2_eq_square)
  finally have "exp (3 / 5 :: real) \<le> 2" .
  then have "3 / 5 \<le> ln (2::real)" by (subst ln_ge_iff) simp_all
  then show ?thesis .
qed

lemma log2_just_below_2_49:
  "49 - 1 / 2 ^ 48 < log 2 (2 ^ 49 - 1 :: real)" "log 2 (2 ^ 49 - 1 :: real) < 49"
proof -
  define t :: real where "t = 1 / 2 ^ 49"
  have t: "0 < t" "t < 1" by (simp_all add: t_def)
  have "log 2 (2 ^ 49 - 1 :: real) < log 2 (2 ^ 49)" by (subst log_less_cancel_iff) simp_all
  also have "\<dots> = 49" by (simp only: log_pow_cancel)
  finally show "log 2 (2 ^ 49 - 1 :: real) < 49" .
  have "ln (1 / (1 - t)) \<le> 1 / (1 - t) - 1" using t by (intro ln_le_minus_one) simp
  also have "\<dots> = t / (1 - t)" using t by (simp add: field_simps)
  also have "\<dots> \<le> t * (8 / 7)" by (simp add: t_def)
  finally have a: "- (t * (8 / 7)) \<le> ln (1 - t)" using t by (simp add: ln_div)
  have "(2 ^ 49 - 1 :: real) = 2 ^ 49 * (1 - t)" by (simp add: t_def)
  then have "ln (2 ^ 49 - 1 :: real) = ln (2 ^ 49) + ln (1 - t)"
    using t by (simp only: ln_mult) (simp add: ln_mult)
  then have "log 2 (2 ^ 49 - 1 :: real) = log 2 (2 ^ 49) + ln (1 - t) / ln 2"
    by (simp only: log_def add_divide_distrib)
  also have "log 2 ((2::real) ^ 49) = 49" by (simp only: log_pow_cancel)
  finally have b: "log 2 (2 ^ 49 - 1 :: real) = 49 + ln (1 - t) / ln 2" .
  have "- (t * (8 / 7)) / ln 2 \<le> ln (1 - t) / ln 2" using a by (intro divide_right_mono) simp_all
  moreover have "(t * (8 / 7)) / ln 2 \<le> (t * (8 / 7)) / (3 / 5)"
    using ln2_lower t by (intro divide_left_mono) simp_all
  moreover have "(t * (8 / 7)) / (3 / 5) < 1 / 2 ^ 48" by (simp add: t_def)
  ultimately show "49 - 1 / 2 ^ 48 < log 2 (2 ^ 49 - 1 :: real)" unfolding b by linarith
qed

lemma log2_double_2_49: "log2_double (2 ^ 49 - 1) = 49"
proof -
  define y :: real where "y = log 2 (2 ^ 49 - 1)"
  have y: "49 - 1 / 2 ^ 48 < y" "y < 49" unfolding y_def by (rule log2_just_below_2_49)+
  have y32: "32 \<le> y" "y < 64" using y by simp_all
  have "log 2 (2 ^ 5) \<le> log 2 y" using y32 by (subst log_le_cancel_iff) simp_all
  then have l5: "5 \<le> log 2 y" by (simp only: log_pow_cancel)
  have "log 2 y < log 2 (2 ^ 6)" using y32 by (subst log_less_cancel_iff) simp_all
  then have l6: "log 2 y < 6" by (simp only: log_pow_cancel)
  have k: "\<lfloor>log 2 \<bar>y\<bar>\<rfloor> = 5" using l5 l6 y32 by (simp add: floor_eq_iff)
  define u :: real where "u = 2 powr (of_int 5 - 52)"
  have u: "u = 1 / 2 ^ 47" unfolding u_def by (simp add: powr_minus_divide)
  have "\<bar>y / u - of_int (49 * 2 ^ 47)\<bar> < 1 / 2" using y unfolding u by (simp add: abs_if)
  then have "round_half_even (y / u) = 49 * 2 ^ 47" by (rule round_half_even_near)
  then have "to_double y = u * of_int (49 * 2 ^ 47)"
    using y32 unfolding to_double_def Let_def k u_def by simp
  also have "\<dots> = 49" unfolding u by simp
  finally show ?thesis by (simp add: log2_double_def y_def)
qed

text \<open>
  The nearest-double logarithm is accurate to \<open>1 / 2 ^ 48\<close> on the numbers from 1 to
  \<open>2 ^ 48\<close>, and exact on the powers of two.
\<close>

lemma log2_double_accurate:
  "1 \<le> x \<and> x \<le> 2 ^ 48 \<longrightarrow> \<bar>log2_double x - log 2 x\<bar> \<le> 1 / 2 ^ 48"
proof
  assume x: "1 \<le> x \<and> x \<le> 2 ^ 48"
  then have "0 \<le> log 2 x" by simp
  moreover have "log 2 x \<le> log 2 (2 ^ 48)" using x by (subst log_le_cancel_iff) simp_all
  then have "log 2 x \<le> 48" by (simp only: log_pow_cancel)
  then have "log 2 x < 64" by simp
  ultimately show "\<bar>log2_double x - log 2 x\<bar> \<le> 1 / 2 ^ 48"
    unfolding log2_double_def by (rule to_double_error)
qed

lemma log2_double_power:
  assumes "e < 48"
  shows "log2_double (2 ^ e) = real e"
proof -
  have "log 2 ((2::real) ^ e) = real e" by (simp only: log_pow_cancel)
  then show ?thesis unfolding log2_double_def using assms by (simp add: to_double_nat)
qed

lemma power2_interval_unique:
  fixes x a b :: nat
  assumes "2 ^ a \<le> x" "x < 2 ^ (a + 1)" "2 ^ b \<le> x" "x < 2 ^ (b + 1)"
  shows "a = b"
proof -
  have "(2::nat) ^ a < 2 ^ (b + 1)" using assms by linarith
  then have "a < b + 1" by (simp only: power_strict_increasing_iff)
  moreover have "(2::nat) ^ b < 2 ^ (a + 1)" using assms by linarith
  then have "b < a + 1" by (simp only: power_strict_increasing_iff)
  ultimately show ?thesis by simp
qed

text \<open>
  C7, as it holds of the code. Let the tile width and height be whole numbers of pixels,
  at least 1, the smaller of them below \<open>2 ^ n\<close>, and let \<^verbatim>\<open>Math.log2\<close> be accurate to
  \<open>1 / 2 ^ n\<close> on the numbers from 1 to \<open>2 ^ n\<close> and exact on the powers of two below
  \<open>2 ^ n\<close>. Then \<open>guessTiffTileSize\<close> is a power of two \<open>2 ^ e\<close> with
  \<open>2 ^ e \<le> min tileWidth tileHeight < 2 ^ (e + 1)\<close>, that is, the largest power of two that
  does not exceed the minimum; and with \<open>n\<close> above 8, \<open>prevPowerOf2 300\<close> and
  \<open>prevPowerOf2 256\<close> are both 256. The nearest-double logarithm \<open>log2_double\<close> meets the
  two conditions with \<open>n = 48\<close>.
\<close>

theorem guessTiffTileSize_prev_power:
  fixes w h n :: nat
  assumes "\<forall>x. 1 \<le> x \<and> x \<le> 2 ^ n \<longrightarrow> \<bar>Math_log2 x - log 2 x\<bar> \<le> 1 / 2 ^ n"
    and "\<forall>e<n. Math_log2 (2 ^ e) = real e"
    and "1 \<le> w" and "1 \<le> h" and "min w h < 2 ^ n"
  shows "(\<exists>e. guessTiffTileSize Math_log2 \<lparr>getTileWidth = real w, getTileHeight = real h\<rparr>
               = Num (2 ^ e)
             \<and> 2 ^ e \<le> min w h \<and> min w h < 2 ^ (e + 1))
         \<and> (8 < n \<longrightarrow> prevPowerOf2 Math_log2 300 = Num 256
                      \<and> prevPowerOf2 Math_log2 256 = Num 256)"
proof (intro conjI impI)
  have "1 \<le> min w h" using assms by simp
  from prevPowerOf2_nat [OF assms(1) assms(2) this assms(5)]
  show "\<exists>e. guessTiffTileSize Math_log2 \<lparr>getTileWidth = real w, getTileHeight = real h\<rparr>
               = Num (2 ^ e)
             \<and> 2 ^ e \<le> min w h \<and> min w h < 2 ^ (e + 1)"
    by (cases "w \<le> h") (simp_all add: guessTiffTileSize_def Let_def min_def)
next
  assume n: "8 < n"
  have "(2::nat) ^ 9 \<le> 2 ^ n" using n by (intro power_increasing) simp_all
  then have lt: "(300::nat) < 2 ^ n" "(256::nat) < 2 ^ n" by simp_all
  obtain e where e: "prevPowerOf2 Math_log2 (real 300) = Num (2 ^ e)" "2 ^ e \<le> (300::nat)"
      "(300::nat) < 2 ^ (e + 1)"
    using prevPowerOf2_nat [OF assms(1) assms(2) _ lt(1)] by auto
  have "e = 8" using e(2,3) by (rule power2_interval_unique) simp_all
  then show "prevPowerOf2 Math_log2 300 = Num 256" using e(1) by simp
next
  assume n: "8 < n"
  have "(2::nat) ^ 9 \<le> 2 ^ n" using n by (intro power_increasing) simp_all
  then have lt: "(256::nat) < 2 ^ n" by simp
  obtain e where e: "prevPowerOf2 Math_log2 (real 256) = Num (2 ^ e)" "2 ^ e \<le> (256::nat)"
      "(256::nat) < 2 ^ (e + 1)"
    using prevPowerOf2_nat [OF assms(1) assms(2) _ lt] by auto
  have "e = 8" using e(2,3) by (rule power2_interval_unique) simp_all
  then show "prevPowerOf2 Math_log2 256 = Num 256" using e(1) by simp
qed

theorem guessTiffTileSize_prev_power_witness:
  "guessTiffTileSize log2_double \<lparr>getTileWidth = 300, getTileHeight = 512\<rparr> = Num 256
   \<and> prevPowerOf2 log2_double 300 = Num 256 \<and> prevPowerOf2 log2_double 256 = Num 256"
proof -
  have acc: "\<forall>x. 1 \<le> x \<and> x \<le> 2 ^ 48 \<longrightarrow> \<bar>log2_double x - log 2 x\<bar> \<le> 1 / 2 ^ 48"
    using log2_double_accurate by blast
  have pow: "\<forall>e<48. log2_double (2 ^ e) = real e" using log2_double_power by blast
  have "(\<exists>e. guessTiffTileSize log2_double \<lparr>getTileWidth = real 300, getTileHeight = real 512\<rparr>
               = Num (2 ^ e)
             \<and> 2 ^ e \<le> min (300::nat) 512 \<and> min (300::nat) 512 < 2 ^ (e + 1))
         \<and> (8 < (48::nat) \<longrightarrow> prevPowerOf2 log2_double 300 = Num 256
                      \<and> prevPowerOf2 log2_double 256 = Num 256)"
    by (rule guessTiffTileSize_prev_power [OF acc pow]) simp_all
  then have p: "prevPowerOf2 log2_double 300 = Num 256 \<and> prevPowerOf2 log2_double 256 = Num 256"
    by simp
  then show ?thesis by (simp add: guessTiffTileSize_def Let_def)
qed

text \<open>
  C7 as stated, for every positive width and height, fails in double precision: the
  logarithm of \<open>2 ^ 49 - 1\<close> rounds to 49, so for a tile of \<open>2 ^ 49 - 1\<close> pixels each way
  \<open>guessTiffTileSize\<close> is \<open>2 ^ 49\<close>, which exceeds the width and the height.
\<close>

theorem guessTiffTileSize_exceeds:
  "guessTiffTileSize log2_double \<lparr>getTileWidth = 2 ^ 49 - 1, getTileHeight = 2 ^ 49 - 1\<rparr>
     = Num (2 ^ 49)
   \<and> min (2 ^ 49 - 1) (2 ^ 49 - 1) < (2 ^ 49 :: real)"
proof -
  have "\<lfloor>log2_double (2 ^ 49 - 1)\<rfloor> = 49" by (simp only: log2_double_2_49) simp
  then have "prevPowerOf2 log2_double (2 ^ 49 - 1) = Num (2 powr of_int 49)"
    unfolding prevPowerOf2_def by simp
  also have "2 powr of_int 49 = (2::real) ^ 49" by (simp add: powr_realpow)
  finally show ?thesis by (simp add: guessTiffTileSize_def Let_def)
qed


section \<open>Correctness of quickselect\<close>

lemma floyd_rivest_keeps_right:
  assumes "right - left > 600" and "floyd_rivest_bounds right left right = (newLeft, newRight)"
  shows "newRight = right"
proof -
  define n where "n = real_of_int (right - left + 1)"
  define s where "s = 0.5 * exp (2 * ln n / 3)"
  define sd where "sd = 0.5 * sqrt (ln n * s * (n - s) / n) * (if n - n / 2 < 0 then - 1 else 1)"
  have nr: "newRight = min right \<lfloor>real_of_int right + (n - n) * s / n + sd\<rfloor>"
    using assms(2) unfolding floyd_rivest_bounds_def Let_def sd_def s_def n_def
    by simp
  have n: "n > 601" using assms(1) by (simp add: n_def)
  then have "0 \<le> ln n" by simp
  then have "exp (2 * ln n / 3) \<le> exp (ln n)" by simp
  also have "exp (ln n) = n" using n by simp
  finally have s: "s \<le> n / 2" by (simp add: s_def)
  have s0: "0 < s" by (simp add: s_def)
  have "0 \<le> ln n * s * (n - s) / n"
    using \<open>0 \<le> ln n\<close> s s0 n by (intro divide_nonneg_nonneg mult_nonneg_nonneg) simp_all
  moreover have "\<not> n - n / 2 < 0" using n by simp
  ultimately have "0 \<le> sd" by (simp add: sd_def)
  then have "right \<le> \<lfloor>real_of_int right + (n - n) * s / n + sd\<rfloor>" by (simp add: le_floor_iff)
  then show ?thesis unfolding nr by simp
qed

lemma mset_nth_image: "mset xs = image_mset ((!) xs) (mset_set {0..<length xs})"
proof -
  have "mset xs = mset (map ((!) xs) [0..<length xs])" by (simp add: map_nth)
  then show ?thesis by (simp del: map_nth)
qed

text \<open>
  When two lists hold the same elements and agree outside a range of positions, each
  element found in the range of one is found in the range of the other.
\<close>

lemma range_values:
  fixes xs ys :: "'a list"
  assumes len: "length ys = length xs" and ms: "mset ys = mset xs"
    and fr: "\<forall>p. \<not> (l \<le> int p \<and> int p \<le> r) \<longrightarrow> ys ! p = xs ! p"
    and q: "l \<le> int q" "int q \<le> r" "q < length xs"
  shows "\<exists>q'. l \<le> int q' \<and> int q' \<le> r \<and> q' < length xs \<and> ys ! q = xs ! q'"
proof -
  define R where "R = {p. p < length xs \<and> l \<le> int p \<and> int p \<le> r}"
  define S where "S = {p. p < length xs \<and> \<not> (l \<le> int p \<and> int p \<le> r)}"
  have fin: "finite R" "finite S" by (simp_all add: R_def S_def)
  have un: "{0..<length xs} = R \<union> S" and dj: "R \<inter> S = {}" by (auto simp: R_def S_def)
  have split: "mset_set {0..<length xs} = mset_set R + mset_set S"
    unfolding un using fin dj by (simp add: mset_set_Union)
  have same: "image_mset ((!) ys) (mset_set S) = image_mset ((!) xs) (mset_set S)"
    by (rule image_mset_cong) (use fr fin in \<open>auto simp: S_def\<close>)
  have "image_mset ((!) ys) (mset_set R) + image_mset ((!) ys) (mset_set S)
      = image_mset ((!) xs) (mset_set R) + image_mset ((!) xs) (mset_set S)"
    using ms mset_nth_image [of xs] mset_nth_image [of ys] len split by simp
  then have eq: "image_mset ((!) ys) (mset_set R) = image_mset ((!) xs) (mset_set R)"
    using same by simp
  have "q \<in> R" using q by (simp add: R_def)
  then have "ys ! q \<in># image_mset ((!) ys) (mset_set R)" using fin by simp
  then have "ys ! q \<in># image_mset ((!) xs) (mset_set R)" using eq by simp
  then obtain q' where "q' \<in> R" "ys ! q = xs ! q'" using fin by auto
  then show ?thesis by (auto simp: R_def)
qed

lemma nth_sort_of_partition:
  fixes ys :: "'a::linorder list"
  assumes k: "k < length ys"
    and lo: "\<forall>p. p \<le> k \<longrightarrow> ys ! p \<le> ys ! k"
    and hi: "\<forall>p. k \<le> p \<and> p < length ys \<longrightarrow> ys ! k \<le> ys ! p"
  shows "sort ys ! k = ys ! k"
proof -
  define a where "a = take k ys"
  define b where "b = drop (Suc k) ys"
  define v where "v = ys ! k"
  have ys: "ys = a @ v # b" unfolding a_def b_def v_def using k by (rule id_take_nth_drop)
  have la: "length a = k" using k by (simp add: a_def)
  have A: "x \<le> v" if "x \<in> set a" for x
  proof -
    from that obtain p where "p < length a" "x = a ! p" by (auto simp: in_set_conv_nth)
    then have "p \<le> k" "x = ys ! p" using la by (simp_all add: a_def)
    with lo show ?thesis by (simp add: v_def)
  qed
  have B: "v \<le> y" if "y \<in> set b" for y
  proof -
    from that obtain p where "p < length b" "y = b ! p" by (auto simp: in_set_conv_nth)
    then have "Suc k + p < length ys" "y = ys ! (Suc k + p)" by (simp_all add: b_def)
    with hi [rule_format, of "Suc k + p"] show ?thesis by (simp add: v_def)
  qed
  have "sorted (sort a @ v # sort b)"
    using A B by (fastforce simp: sorted_append)
  moreover have "mset ys = mset a + {#v#} + mset b" by (subst ys) simp
  then have "mset (sort a @ v # sort b) = mset ys" by simp
  ultimately have "sort ys = sort a @ v # sort b" by (simp add: properties_for_sort)
  then have "sort ys ! k = (sort a @ v # sort b) ! k" by simp
  also have "\<dots> = v" using la by (simp add: nth_append)
  finally show ?thesis by (simp add: v_def)
qed


lemma quickselect_trivial: "right \<le> left \<Longrightarrow> quickselect arr k left right = Some arr"
  by (subst quickselect.simps) simp

lemma selected_refl:
  assumes "right \<le> left"
  shows "selected arr arr k left right"
proof -
  have "arr ! p \<le> arr ! nat k" if "left \<le> int p" "int p \<le> k" "k \<le> right" for p
  proof -
    from that assms have "int p = k" by linarith
    then have "nat k = p" by simp
    then show ?thesis by simp
  qed
  moreover have "arr ! nat k \<le> arr ! p" if "left \<le> k" "k \<le> int p" "int p \<le> right" for p
  proof -
    from that assms have "int p = k" by linarith
    then have "nat k = p" by simp
    then show ?thesis by simp
  qed
  ultimately show ?thesis unfolding selected_def by blast
qed

text \<open>
  Every call whose range and \<open>k\<close> lie within the array returns and leaves the array
  \<open>selected\<close>; so does every call on a range of at most one position.
\<close>

lemma quickselect_post:
  assumes "right \<le> left \<or> (0 \<le> left \<and> right < int (length arr) \<and> 0 \<le> k \<and> k < int (length arr))"
  shows "\<exists>arr'. quickselect arr k left right = Some arr' \<and> selected arr arr' k left right"
  using assms
proof (induction arr k left right rule: quickselect.induct)
  case (1 arr k left right)
  show ?case
  proof (cases "left < right")
    case False
    then show ?thesis by (simp add: quickselect_trivial selected_refl)
  next
    case True
    with "1.prems" have inb: "0 \<le> left" "right < int (length arr)" "0 \<le> k" "k < int (length arr)"
      by simp_all
    \<comment> \<open>the narrowing call on a sample of the range\<close>
    have "\<exists>arr1. (if right - left > 600
                 then (case floyd_rivest_bounds k left right of
                         (newLeft, newRight) \<Rightarrow> quickselect arr k newLeft newRight)
                 else Some arr) = Some arr1
             \<and> length arr1 = length arr \<and> mset arr1 = mset arr
             \<and> (\<forall>p. \<not> (left \<le> int p \<and> int p \<le> right) \<and> int p \<noteq> k \<longrightarrow> arr1 ! p = arr ! p)
             \<and> arr ! nat right \<le> arr1 ! nat right"
    proof (cases "right - left > 600")
      case False
      then show ?thesis by simp
    next
      case wide: True
      obtain nl nr where b: "floyd_rivest_bounds k left right = (nl, nr)"
        by (cases "floyd_rivest_bounds k left right")
      from floyd_rivest_narrows [OF wide b] have nb: "left \<le> nl" "nr \<le> right" by simp_all
      have "\<exists>arr'. quickselect arr k nl nr = Some arr' \<and> selected arr arr' k nl nr"
        by (rule "1.IH"(1) [OF True wide b [symmetric]]) (use inb nb in simp)
      then obtain arr1 where q1: "quickselect arr k nl nr = Some arr1"
        and s1: "selected arr arr1 k nl nr" by blast
      have fr1: "\<forall>p. \<not> (left \<le> int p \<and> int p \<le> right) \<and> int p \<noteq> k \<longrightarrow> arr1 ! p = arr ! p"
      proof (intro allI impI)
        fix p assume p: "\<not> (left \<le> int p \<and> int p \<le> right) \<and> int p \<noteq> k"
        then have "\<not> (nl \<le> int p \<and> int p \<le> nr) \<and> int p \<noteq> k" using nb by linarith
        with s1 show "arr1 ! p = arr ! p" unfolding selected_def by blast
      qed
      have "arr ! nat right \<le> arr1 ! nat right"
      proof (cases "nr = right")
        case True
        with s1 show ?thesis unfolding selected_def by blast
      next
        case False
        have "k \<noteq> right"
        proof
          assume "k = right"
          with floyd_rivest_keeps_right [OF wide, of nl nr] b False show False by simp
        qed
        then have "\<not> (nl \<le> int (nat right) \<and> int (nat right) \<le> nr) \<and> int (nat right) \<noteq> k"
          using False nb inb True by simp
        with s1 have "arr1 ! nat right = arr ! nat right" unfolding selected_def by blast
        then show ?thesis by simp
      qed
      with q1 s1 fr1 wide b show ?thesis unfolding selected_def by simp
    qed
    then obtain arr1 where
      c1: "(if right - left > 600
            then (case floyd_rivest_bounds k left right of
                    (newLeft, newRight) \<Rightarrow> quickselect arr k newLeft newRight)
            else Some arr) = Some arr1"
      and len1: "length arr1 = length arr" and ms1: "mset arr1 = mset arr"
      and fr1: "\<forall>p. \<not> (left \<le> int p \<and> int p \<le> right) \<and> int p \<noteq> k \<longrightarrow> arr1 ! p = arr ! p"
      and rt1: "arr ! nat right \<le> arr1 ! nat right"
      by blast
    \<comment> \<open>one partition pass\<close>
    define t where "t = arr1 ! nat k"
    from select_step_post [of left right arr1 k] inb True len1 obtain arr2 j where
      c2: "select_step arr1 k left right = Some (arr2, j)"
      and len2: "length arr2 = length arr1" and ms2: "mset arr2 = mset arr1"
      and jb: "left \<le> j" "j \<le> right"
      and pj: "arr2 ! nat j = t"
      and lo2: "\<forall>p. left \<le> int p \<and> int p \<le> j \<longrightarrow> arr2 ! p \<le> t"
      and hi2: "\<forall>p. j \<le> int p \<and> int p \<le> right \<longrightarrow> t \<le> arr2 ! p"
      and fr2: "\<forall>p. \<not> (left \<le> int p \<and> int p \<le> right) \<and> int p \<noteq> k \<longrightarrow> arr2 ! p = arr1 ! p"
      and rt2: "arr1 ! nat right \<le> arr2 ! nat right"
      unfolding t_def by auto
    \<comment> \<open>the rest of the loop\<close>
    define left' where "left' = (if j \<le> k then j + 1 else left)"
    define right' where "right' = (if k \<le> j then j - 1 else right)"
    have lr: "left \<le> left'" "right' \<le> right" using jb by (simp_all add: left'_def right'_def)
    have "\<exists>arr'. quickselect arr2 k left' right' = Some arr' \<and> selected arr2 arr' k left' right'"
      unfolding left'_def right'_def
      by (rule "1.IH"(2) [OF True c1 c2 refl]) (use inb jb len1 len2 in auto)
    then obtain arr' where c3: "quickselect arr2 k left' right' = Some arr'"
      and s3: "selected arr2 arr' k left' right'" by blast
    have res: "quickselect arr k left right = Some arr'"
      using True c1 c2 c3 unfolding left'_def right'_def by (subst quickselect.simps) simp
    have len3: "length arr' = length arr2" and ms3: "mset arr' = mset arr2"
      and tr3: "right' \<le> left' \<longrightarrow> arr' = arr2"
      and fr3: "\<forall>p. \<not> (left' \<le> int p \<and> int p \<le> right') \<and> int p \<noteq> k \<longrightarrow> arr' ! p = arr2 ! p"
      and rt3: "arr2 ! nat right' \<le> arr' ! nat right'"
      and sel3: "left' \<le> k \<and> k \<le> right' \<longrightarrow>
          (\<forall>p. left' \<le> int p \<and> int p \<le> k \<longrightarrow> arr' ! p \<le> arr' ! nat k)
        \<and> (\<forall>p. k \<le> int p \<and> int p \<le> right' \<longrightarrow> arr' ! nat k \<le> arr' ! p)"
      using s3 unfolding selected_def by blast+
    have frame: "\<forall>p. \<not> (left \<le> int p \<and> int p \<le> right) \<and> int p \<noteq> k \<longrightarrow> arr' ! p = arr ! p"
    proof (intro allI impI)
      fix p assume p: "\<not> (left \<le> int p \<and> int p \<le> right) \<and> int p \<noteq> k"
      then have "\<not> (left' \<le> int p \<and> int p \<le> right') \<and> int p \<noteq> k" using lr by linarith
      then have "arr' ! p = arr2 ! p" using fr3 by blast
      with fr2 fr1 p show "arr' ! p = arr ! p" by simp
    qed
    have rt: "arr2 ! nat right \<le> arr' ! nat right"
    proof (cases "right' \<le> left'")
      case True
      with tr3 show ?thesis by simp
    next
      case wide': False
      show ?thesis
      proof (cases "right' = right")
        case True
        with rt3 show ?thesis by simp
      next
        case False
        then have kj: "k \<le> j" "right' = j - 1" by (simp_all add: right'_def split: if_splits)
        have "k \<noteq> right"
        proof
          assume "k = right"
          with kj jb have "j \<le> k" by simp
          then have "left' = j + 1" by (simp add: left'_def)
          with kj wide' show False by simp
        qed
        then have "\<not> (left' \<le> int (nat right) \<and> int (nat right) \<le> right') \<and> int (nat right) \<noteq> k"
          using kj jb inb True by simp
        then have "arr' ! nat right = arr2 ! nat right" using fr3 by blast
        then show ?thesis by simp
      qed
    qed
    have sel: "(\<forall>p. left \<le> int p \<and> int p \<le> k \<longrightarrow> arr' ! p \<le> arr' ! nat k)
        \<and> (\<forall>p. k \<le> int p \<and> int p \<le> right \<longrightarrow> arr' ! nat k \<le> arr' ! p)"
      if kin: "left \<le> k" "k \<le> right"
    proof -
      consider "j = k" | "j < k" | "k < j" by linarith
      then show ?thesis
      proof cases
        case 1
        then have "right' \<le> left'" by (simp add: left'_def right'_def)
        with tr3 have "arr' = arr2" by simp
        with 1 pj lo2 hi2 show ?thesis by simp
      next
        case 2
        then have l': "left' = j + 1" and r': "right' = right" by (simp_all add: left'_def right'_def)
        have kin': "left' \<le> k \<and> k \<le> right'" using 2 kin l' r' by simp
        have fr3': "\<forall>p. \<not> (left' \<le> int p \<and> int p \<le> right') \<longrightarrow> arr' ! p = arr2 ! p"
          using fr3 kin' by auto
        have "\<exists>q'. left' \<le> int q' \<and> int q' \<le> right' \<and> q' < length arr2 \<and> arr' ! nat k = arr2 ! q'"
          by (rule range_values [OF len3 ms3 fr3']) (use kin' inb len1 len2 in auto)
        then obtain q' where "left' \<le> int q'" "int q' \<le> right'" "arr' ! nat k = arr2 ! q'" by blast
        then have tk: "t \<le> arr' ! nat k" using hi2 l' r' by simp
        have "arr' ! p \<le> arr' ! nat k" if p: "left \<le> int p \<and> int p \<le> k" for p
        proof (cases "int p \<le> j")
          case True
          then have "arr' ! p = arr2 ! p" using fr3' l' by simp
          with lo2 p True tk show ?thesis by fastforce
        next
          case False
          with sel3 kin' p l' show ?thesis by simp
        qed
        moreover have "arr' ! nat k \<le> arr' ! p" if "k \<le> int p \<and> int p \<le> right" for p
          using sel3 kin' that r' by simp
        ultimately show ?thesis by blast
      next
        case 3
        then have l': "left' = left" and r': "right' = j - 1" by (simp_all add: left'_def right'_def)
        have kin': "left' \<le> k \<and> k \<le> right'" using 3 kin l' r' by simp
        have fr3': "\<forall>p. \<not> (left' \<le> int p \<and> int p \<le> right') \<longrightarrow> arr' ! p = arr2 ! p"
          using fr3 kin' by auto
        have "\<exists>q'. left' \<le> int q' \<and> int q' \<le> right' \<and> q' < length arr2 \<and> arr' ! nat k = arr2 ! q'"
          by (rule range_values [OF len3 ms3 fr3']) (use kin' inb jb len1 len2 in auto)
        then obtain q' where "left' \<le> int q'" "int q' \<le> right'" "arr' ! nat k = arr2 ! q'" by blast
        then have tk: "arr' ! nat k \<le> t" using lo2 l' r' by simp
        have "arr' ! nat k \<le> arr' ! p" if p: "k \<le> int p \<and> int p \<le> right" for p
        proof (cases "j \<le> int p")
          case True
          then have "arr' ! p = arr2 ! p" using fr3' r' by simp
          with hi2 p True tk show ?thesis by fastforce
        next
          case False
          with sel3 kin' p r' show ?thesis by simp
        qed
        moreover have "arr' ! p \<le> arr' ! nat k" if "left \<le> int p \<and> int p \<le> k" for p
          using sel3 kin' that l' by simp
        ultimately show ?thesis by blast
      qed
    qed
    have "selected arr arr' k left right"
      unfolding selected_def
    proof (intro conjI)
      show "length arr' = length arr" using len3 len2 len1 by simp
      show "mset arr' = mset arr" using ms3 ms2 ms1 by simp
      show "right \<le> left \<longrightarrow> arr' = arr" using True by simp
      show "\<forall>p. \<not> (left \<le> int p \<and> int p \<le> right) \<and> int p \<noteq> k \<longrightarrow> arr' ! p = arr ! p" by (rule frame)
      show "arr ! nat right \<le> arr' ! nat right" using rt1 rt2 rt by linarith
      show "left \<le> k \<and> k \<le> right \<longrightarrow>
          (\<forall>p. left \<le> int p \<and> int p \<le> k \<longrightarrow> arr' ! p \<le> arr' ! nat k)
        \<and> (\<forall>p. k \<le> int p \<and> int p \<le> right \<longrightarrow> arr' ! nat k \<le> arr' ! p)"
        using sel by blast
    qed
    with res show ?thesis by blast
  qed
qed


subsection \<open>Ranks\<close>

text \<open>The element at which a list is partitioned is the element of that rank.\<close>

lemma sort_cong_mset: "mset xs = mset ys \<Longrightarrow> sort xs = sort ys"
  by (metis mset_sort properties_for_sort sorted_sort)

lemma partitioned_at_nth_sort:
  assumes "k < length ys" and "partitioned_at ys k"
  shows "sort ys ! k = ys ! k"
  using assms unfolding partitioned_at_def by (intro nth_sort_of_partition) simp_all

lemma selected_whole:
  assumes "selected xs ys k 0 (int (length xs) - 1)" and "0 \<le> k" and "k < int (length xs)"
  shows "partitioned_at ys (nat k)"
proof -
  have len: "length ys = length xs" using assms(1) unfolding selected_def by simp
  have "\<forall>p. 0 \<le> int p \<and> int p \<le> k \<longrightarrow> ys ! p \<le> ys ! nat k"
    and "\<forall>p. k \<le> int p \<and> int p \<le> int (length xs) - 1 \<longrightarrow> ys ! nat k \<le> ys ! p"
    using assms unfolding selected_def by simp_all
  then show ?thesis using assms(2) len unfolding partitioned_at_def by auto
qed

lemma selected_below:
  assumes b: "0 \<le> bt" "bt \<le> tp" "tp < int (length c1)"
    and p1: "partitioned_at c1 (nat tp)"
    and s: "selected c1 c2 bt 0 tp"
  shows "partitioned_at c2 (nat tp) \<and> partitioned_at c2 (nat bt) \<and> c2 ! nat tp = c1 ! nat tp"
proof -
  define T where "T = nat tp"
  define B where "B = nat bt"
  have T: "int T = tp" and B: "int B = bt" using b by (simp_all add: T_def B_def)
  have len: "length c2 = length c1" and ms: "mset c2 = mset c1"
    using s unfolding selected_def by simp_all
  have lo1: "\<forall>p. p \<le> T \<longrightarrow> c1 ! p \<le> c1 ! T"
    and hi1: "\<forall>p. T \<le> p \<and> p < length c1 \<longrightarrow> c1 ! T \<le> c1 ! p"
    using p1 unfolding partitioned_at_def T_def by simp_all
  have fr: "\<forall>p. \<not> (0 \<le> int p \<and> int p \<le> tp) \<longrightarrow> c2 ! p = c1 ! p"
    using s b unfolding selected_def by auto
  have rt: "c1 ! T \<le> c2 ! T" using s unfolding selected_def T_def by simp
  have lo2: "\<forall>p. int p \<le> bt \<longrightarrow> c2 ! p \<le> c2 ! B"
    using s b unfolding selected_def B_def by simp
  have hi2: "\<forall>p. bt \<le> int p \<and> int p \<le> tp \<longrightarrow> c2 ! B \<le> c2 ! p"
    using s b unfolding selected_def B_def by simp
  have below: "c2 ! q \<le> c1 ! T" if "int q \<le> tp" for q
  proof -
    have "\<exists>q'. 0 \<le> int q' \<and> int q' \<le> tp \<and> q' < length c1 \<and> c2 ! q = c1 ! q'"
      by (rule range_values [OF len ms fr]) (use that b in auto)
    then obtain q' where "int q' \<le> tp" "c2 ! q = c1 ! q'" by blast
    with lo1 T show ?thesis by simp
  qed
  have eqT: "c2 ! T = c1 ! T" using below [of T] rt T by simp
  have above: "c1 ! T \<le> c2 ! p" if "tp < int p" "p < length c2" for p
  proof -
    have "c2 ! p = c1 ! p" using fr that by simp
    moreover have "T \<le> p" using that T by linarith
    ultimately show ?thesis using hi1 that len by simp
  qed
  have "partitioned_at c2 T"
    unfolding partitioned_at_def
  proof (intro conjI allI impI)
    fix p assume "p \<le> T"
    then show "c2 ! p \<le> c2 ! T" using below [of p] eqT T by simp
  next
    fix p assume p: "T \<le> p \<and> p < length c2"
    show "c2 ! T \<le> c2 ! p"
    proof (cases "p = T")
      case True
      then show ?thesis by simp
    next
      case False
      with p T have "tp < int p" by linarith
      with above p eqT show ?thesis by simp
    qed
  qed
  moreover have "partitioned_at c2 B"
    unfolding partitioned_at_def
  proof (intro conjI allI impI)
    fix p assume "p \<le> B"
    then show "c2 ! p \<le> c2 ! B" using lo2 B by simp
  next
    fix p assume p: "B \<le> p \<and> p < length c2"
    show "c2 ! B \<le> c2 ! p"
    proof (cases "int p \<le> tp")
      case True
      with hi2 p B show ?thesis by simp
    next
      case False
      then have "c1 ! T \<le> c2 ! p" using above p by simp
      moreover have "c2 ! B \<le> c1 ! T" using below [of B] B b by simp
      ultimately show ?thesis by simp
    qed
  qed
  ultimately show ?thesis using eqT by (simp add: T_def B_def)
qed

lemma selected_above:
  assumes b: "0 \<le> M" "M \<le> Q" "Q < int (length c1)"
    and p1: "partitioned_at c1 (nat M)"
    and s: "selected c1 c2 Q M (int (length c1) - 1)"
  shows "partitioned_at c2 (nat Q)"
proof -
  define m where "m = nat M"
  define q where "q = nat Q"
  have m: "int m = M" and q: "int q = Q" using b by (simp_all add: m_def q_def)
  have len: "length c2 = length c1" and ms: "mset c2 = mset c1"
    using s unfolding selected_def by simp_all
  have lo1: "\<forall>p. p \<le> m \<longrightarrow> c1 ! p \<le> c1 ! m"
    and hi1: "\<forall>p. m \<le> p \<and> p < length c1 \<longrightarrow> c1 ! m \<le> c1 ! p"
    using p1 unfolding partitioned_at_def m_def by simp_all
  have fr: "\<forall>p. \<not> (M \<le> int p \<and> int p \<le> int (length c1) - 1) \<longrightarrow> c2 ! p = c1 ! p"
    using s b unfolding selected_def by auto
  have lo2: "\<forall>p. M \<le> int p \<and> int p \<le> Q \<longrightarrow> c2 ! p \<le> c2 ! q"
    using s b unfolding selected_def q_def by simp
  have hi2: "\<forall>p. Q \<le> int p \<and> p < length c1 \<longrightarrow> c2 ! q \<le> c2 ! p"
    using s b unfolding selected_def q_def by simp
  have "\<exists>q'. M \<le> int q' \<and> int q' \<le> int (length c1) - 1 \<and> q' < length c1 \<and> c2 ! q = c1 ! q'"
    by (rule range_values [OF len ms fr]) (use b q in auto)
  then obtain q' where "M \<le> int q'" "q' < length c1" "c2 ! q = c1 ! q'" by blast
  then have mid: "c1 ! m \<le> c2 ! q" using hi1 m by simp
  show ?thesis
    unfolding partitioned_at_def q_def [symmetric]
  proof (intro conjI allI impI)
    fix p assume p: "p \<le> q"
    show "c2 ! p \<le> c2 ! q"
    proof (cases "M \<le> int p")
      case True
      with lo2 p q show ?thesis by simp
    next
      case False
      then have "c2 ! p = c1 ! p" using fr by simp
      moreover have "p \<le> m" using False m by linarith
      ultimately show ?thesis using lo1 mid by fastforce
    qed
  next
    fix p assume "q \<le> p \<and> p < length c2"
    then show "c2 ! q \<le> c2 ! p" using hi2 q len by simp
  qed
qed

section \<open>Properties of getChannelStats\<close>

lemma cutoff_locations:
  fixes m :: nat
  defines "tp \<equiv> \<lfloor>real m * (1 - cutoffPercentile)\<rfloor>"
    and "bt \<equiv> \<lfloor>real m * cutoffPercentile\<rfloor>"
  shows "0 \<le> bt" "bt \<le> tp" "0 < m \<Longrightarrow> tp < int m" "m = 0 \<Longrightarrow> tp = 0"
proof -
  show "0 \<le> bt" unfolding bt_def cutoffPercentile_def by simp
  have "real m * cutoffPercentile \<le> real m * (1 - cutoffPercentile)"
    unfolding cutoffPercentile_def by (intro mult_left_mono) simp_all
  then show "bt \<le> tp" unfolding bt_def tp_def by (rule floor_mono)
  show "tp < int m" if "0 < m"
  proof -
    have "real m * (1 - cutoffPercentile) < real m" using that by (simp add: cutoffPercentile_def)
    then show ?thesis unfolding tp_def by (simp add: floor_less_iff)
  qed
  show "tp = 0" if "m = 0" using that by (simp add: tp_def)
qed

lemma range_pass_nonempty:
  assumes "arr \<noteq> []"
  shows "range_pass arr = (Num (Min (set arr)), Num (Max (set arr)), sum_list arr)"
proof -
  define f where "f = (\<lambda>(x::real) (mn, mx, sum_total).
             (if js_lt (Num x) mn then Num x else mn,
              if js_lt mx (Num x) then Num x else mx,
              sum_total + x))"
  have "fold f xs (PosInfinity, NegInfinity, 0) = (Num (Min (set xs)), Num (Max (set xs)), sum_list xs)"
    if "xs \<noteq> []" for xs
    using that
  proof (induction xs rule: rev_nonempty_induct)
    case (single x)
    show ?case by (simp add: f_def)
  next
    case (snoc x xs)
    have "Min (set (xs @ [x])) = min x (Min (set xs))" "Max (set (xs @ [x])) = max x (Max (set xs))"
      using snoc.hyps by simp_all
    with snoc.IH show ?case by (simp add: f_def min_def max_def)
  qed
  from this [of "rev arr"] assms show ?thesis
    unfolding range_pass_def f_def by (simp add: sum_list_rev)
qed

lemma getChannelStats_run:
  fixes arr :: "real list"
  obtains arr1 arr2 arr3 c1 c2 where
    "selected arr arr1 (int (length arr div 2)) 0 (int (length arr) - 1)"
    "selected arr1 arr2 (int (length arr div 4)) 0 (int (length arr div 2))"
    "selected arr2 arr3 (3 * int (length arr div 4)) (int (length arr div 2)) (int (length arr) - 1)"
    "selected (filter (\<lambda>i. 0 < i) arr3) c1
        \<lfloor>real (length (filter (\<lambda>i. 0 < i) arr3)) * (1 - cutoffPercentile)\<rfloor> 0
        (int (length (filter (\<lambda>i. 0 < i) arr3)) - 1)"
    "selected c1 c2 \<lfloor>real (length (filter (\<lambda>i. 0 < i) arr3)) * cutoffPercentile\<rfloor> 0
        \<lfloor>real (length (filter (\<lambda>i. 0 < i) arr3)) * (1 - cutoffPercentile)\<rfloor>"
    "getChannelStats arr = Some
       (\<lparr>mean = js_div (snd (snd (range_pass arr))) (length arr),
         sd = js_sqrt (js_div (fold (\<lambda>x s. s + (x - snd (snd (range_pass arr)) / real (length arr))\<^sup>2)
                                 (rev arr) 0) (length arr)),
         q1 = js_index arr2 (int (length arr div 4)),
         q3 = js_index arr3 (3 * int (length arr div 4)),
         median = js_index arr1 (int (length arr div 2)),
         domain = [fst (range_pass arr), fst (snd (range_pass arr))],
         contrastLimits =
           [js_or0 (js_index c2 \<lfloor>real (length (filter (\<lambda>i. 0 < i) arr3)) * cutoffPercentile\<rfloor>),
            js_or0 (js_index c2 \<lfloor>real (length (filter (\<lambda>i. 0 < i) arr3)) * (1 - cutoffPercentile)\<rfloor>)]\<rparr>,
        arr3)"
proof -
  define n where "n = length arr"
  obtain arr1 where q1: "quickselect arr (int (n div 2)) 0 (int n - 1) = Some arr1"
    and s1: "selected arr arr1 (int (n div 2)) 0 (int n - 1)"
    using quickselect_post [of "int n - 1" 0 arr "int (n div 2)"] unfolding n_def by fastforce
  have l1: "length arr1 = n" using s1 by (simp add: selected_def n_def)
  obtain arr2 where q2: "quickselect arr1 (int (n div 4)) 0 (int (n div 2)) = Some arr2"
    and s2: "selected arr1 arr2 (int (n div 4)) 0 (int (n div 2))"
    using quickselect_post [of "int (n div 2)" 0 arr1 "int (n div 4)"] l1 by fastforce
  have l2: "length arr2 = n" using s2 l1 by (simp add: selected_def)
  obtain arr3 where q3: "quickselect arr2 (3 * int (n div 4)) (int (n div 2)) (int n - 1) = Some arr3"
    and s3: "selected arr2 arr3 (3 * int (n div 4)) (int (n div 2)) (int n - 1)"
    using quickselect_post [of "int n - 1" "int (n div 2)" arr2 "3 * int (n div 4)"] l2 by fastforce
  define cutoffArr where "cutoffArr = filter (\<lambda>i. 0 < i) arr3"
  define m where "m = length cutoffArr"
  define tp where "tp = \<lfloor>real m * (1 - cutoffPercentile)\<rfloor>"
  define bt where "bt = \<lfloor>real m * cutoffPercentile\<rfloor>"
  have loc: "0 \<le> bt" "bt \<le> tp" "0 < m \<Longrightarrow> tp < int m" "m = 0 \<Longrightarrow> tp = 0"
    using cutoff_locations [of m] unfolding tp_def bt_def by blast+
  obtain c1 where q4: "quickselect cutoffArr tp 0 (int m - 1) = Some c1"
    and s4: "selected cutoffArr c1 tp 0 (int m - 1)"
    using quickselect_post [of "int m - 1" 0 cutoffArr tp] loc unfolding m_def by fastforce
  have l4: "length c1 = m" using s4 by (simp add: selected_def m_def)
  obtain c2 where q5: "quickselect c1 bt 0 tp = Some c2"
    and s5: "selected c1 c2 bt 0 tp"
    using quickselect_post [of tp 0 c1 bt] loc l4 by fastforce
  have "getChannelStats arr = Some
       (\<lparr>mean = js_div (snd (snd (range_pass arr))) n,
         sd = js_sqrt (js_div (fold (\<lambda>x s. s + (x - snd (snd (range_pass arr)) / real n)\<^sup>2)
                                 (rev arr) 0) n),
         q1 = js_index arr2 (int (n div 4)),
         q3 = js_index arr3 (3 * int (n div 4)),
         median = js_index arr1 (int (n div 2)),
         domain = [fst (range_pass arr), fst (snd (range_pass arr))],
         contrastLimits = [js_or0 (js_index c2 bt), js_or0 (js_index c2 tp)]\<rparr>,
        arr3)"
    unfolding getChannelStats_def Let_def
    using q1 q2 q3 q4 q5
    unfolding n_def m_def tp_def bt_def cutoffArr_def
    by (simp split: prod.splits)
  with s1 s2 s3 s4 s5 that show thesis
    unfolding n_def m_def tp_def bt_def cutoffArr_def by blast
qed


lemmas getChannelStats_eval =
  getChannelStats_def range_pass_def js_div_def js_index_def at_index_def cutoffPercentile_def
  quickselect.simps select_step_def sweep.simps scan_up.simps scan_down.simps swap_def Let_def

text \<open>
  C3. For a non-empty buffer \<open>getChannelStats\<close> returns, and the \<open>domain\<close> of its result is
  the pair of the smallest and the largest sample.
\<close>

theorem getChannelStats_domain:
  assumes "arr \<noteq> []"
  shows "\<exists>st arr'. getChannelStats arr = Some (st, arr')
           \<and> domain st = [Num (Min (set arr)), Num (Max (set arr))]"
proof -
  obtain st arr' where "getChannelStats arr = Some (st, arr')"
    and "domain st = [fst (range_pass arr), fst (snd (range_pass arr))]"
    by (rule getChannelStats_run [of arr]) simp
  then show ?thesis using range_pass_nonempty [OF assms] by simp
qed

theorem getChannelStats_domain_witness:
  "[0, 0, 65535, 0] \<noteq> ([] :: real list)
   \<and> (\<exists>st arr'. getChannelStats [0, 0, 65535, 0] = Some (st, arr')
          \<and> domain st = [Num 0, Num 65535])"
  using getChannelStats_domain [of "[0, 0, 65535, 0]"] by simp

text \<open>
  C10. \<open>getChannelStats\<close> returns for every buffer, and the buffer it leaves behind holds
  the same samples as before, each as often as before; only their order may differ.
\<close>

theorem getChannelStats_permutes:
  "\<exists>st arr'. getChannelStats arr = Some (st, arr') \<and> mset arr' = mset arr
             \<and> length arr' = length arr"
proof -
  obtain arr1 arr2 arr3 st where
    "selected arr arr1 (int (length arr div 2)) 0 (int (length arr) - 1)"
    "selected arr1 arr2 (int (length arr div 4)) 0 (int (length arr div 2))"
    "selected arr2 arr3 (3 * int (length arr div 4)) (int (length arr div 2)) (int (length arr) - 1)"
    "getChannelStats arr = Some (st, arr3)"
    by (rule getChannelStats_run [of arr]) blast
  then show ?thesis unfolding selected_def by simp
qed

text \<open>
  C2 as the code has it. On the empty buffer \<open>getChannelStats\<close> does not fail: it returns
  \<open>mean = NaN\<close>, \<open>sd = NaN\<close>, \<open>median = q1 = q3 = undefined\<close>,
  \<open>domain = [Infinity, -Infinity]\<close> and \<open>contrastLimits = [0, 0]\<close>.
\<close>

theorem getChannelStats_empty:
  "getChannelStats [] =
     Some (\<lparr>mean = NaN, sd = NaN, q1 = Undefined, q3 = Undefined, median = Undefined,
            domain = [PosInfinity, NegInfinity], contrastLimits = [Num 0, Num 0]\<rparr>, [])"
  by (simp add: getChannelStats_eval)

text \<open>
  C2 as stated fails: the call on the empty buffer returns a record, and its mean is
  \<open>NaN\<close>.
\<close>

theorem getChannelStats_empty_returns_NaN:
  "map_option (mean \<circ> fst) (getChannelStats []) = Some NaN"
  by (simp add: getChannelStats_eval)

text \<open>
  C1 (\<open>q1 \<le> median \<le> q3\<close> for every non-empty buffer) at the buffer \<open>[1, 2]\<close>: the
  median location is 1 and both quartile locations are 0, so the third selection runs on
  the range \<open>[1, 1]\<close> and does nothing. The median is 2, and both quartiles are read at
  index 0, which holds 1: \<open>q3 < median\<close>.
\<close>

theorem getChannelStats_two_samples:
  "map_option (q1 \<circ> fst) (getChannelStats [1, 2]) = Some (Num 1)
   \<and> map_option (median \<circ> fst) (getChannelStats [1, 2]) = Some (Num 2)
   \<and> map_option (q3 \<circ> fst) (getChannelStats [1, 2]) = Some (Num 1)
   \<and> map_option snd (getChannelStats [1, 2]) = Some [1, 2]"
  by (simp add: getChannelStats_eval)


text \<open>
  What the two selections on the filtered array leave at the two cut-off locations:
  the elements of those ranks.
\<close>

lemma cutoff_selection:
  fixes cutoffArr c1 c2 :: "real list"
  assumes tp: "0 \<le> bt" "bt \<le> tp" "tp < int (length cutoffArr)"
    and s4: "selected cutoffArr c1 tp 0 (int (length cutoffArr) - 1)"
    and s5: "selected c1 c2 bt 0 tp"
  shows "js_index c2 bt = Num (sort cutoffArr ! nat bt) \<and> js_index c2 tp = Num (sort cutoffArr ! nat tp)"
proof -
  have l4: "length c1 = length cutoffArr" and ms4: "mset c1 = mset cutoffArr"
    using s4 unfolding selected_def by simp_all
  have l5: "length c2 = length c1" and ms5: "mset c2 = mset c1"
    using s5 unfolding selected_def by simp_all
  have "partitioned_at c1 (nat tp)" using selected_whole [OF s4] tp by simp
  then have p: "partitioned_at c2 (nat tp)" "partitioned_at c2 (nat bt)"
    using selected_below [of bt tp c1 c2] tp s5 l4 by simp_all
  have "sort c2 ! nat tp = c2 ! nat tp" "sort c2 ! nat bt = c2 ! nat bt"
    using p tp l4 l5 by (simp_all add: partitioned_at_nth_sort)
  moreover have "sort c2 = sort cutoffArr" by (rule sort_cong_mset) (simp add: ms4 ms5)
  moreover have "js_index c2 bt = Num (c2 ! nat bt)" "js_index c2 tp = Num (c2 ! nat tp)"
    using tp l4 l5 by (simp_all add: js_index_def at_index_def)
  ultimately show ?thesis by simp
qed

text \<open>
  C4. \<open>getChannelStats\<close> returns for every buffer. With \<open>m\<close> the number of samples
  \<open>> 0\<close>, its \<open>contrastLimits\<close> are \<open>[0, 0]\<close> when \<open>m = 0\<close>; otherwise they are
  the elements of rank \<open>\<lfloor>m * 0.0005\<rfloor>\<close> and \<open>\<lfloor>m * (1 - 0.0005)\<rfloor>\<close> (counted from 0, in
  ascending order) of the strictly positive samples. The products are exact.
\<close>

theorem getChannelStats_contrastLimits:
  "\<exists>st arr'. getChannelStats arr = Some (st, arr')
     \<and> contrastLimits st =
        (let cutoffArr = filter (\<lambda>i. 0 < i) arr; m = length cutoffArr
         in if m = 0 then [Num 0, Num 0]
            else [Num (sort cutoffArr ! nat \<lfloor>real m * cutoffPercentile\<rfloor>),
                  Num (sort cutoffArr ! nat \<lfloor>real m * (1 - cutoffPercentile)\<rfloor>)])"
proof -
  obtain arr1 arr2 arr3 c1 c2 st where
    s1: "selected arr arr1 (int (length arr div 2)) 0 (int (length arr) - 1)"
    and s2: "selected arr1 arr2 (int (length arr div 4)) 0 (int (length arr div 2))"
    and s3: "selected arr2 arr3 (3 * int (length arr div 4)) (int (length arr div 2)) (int (length arr) - 1)"
    and s4: "selected (filter (\<lambda>i. 0 < i) arr3) c1
        \<lfloor>real (length (filter (\<lambda>i. 0 < i) arr3)) * (1 - cutoffPercentile)\<rfloor> 0
        (int (length (filter (\<lambda>i. 0 < i) arr3)) - 1)"
    and s5: "selected c1 c2 \<lfloor>real (length (filter (\<lambda>i. 0 < i) arr3)) * cutoffPercentile\<rfloor> 0
        \<lfloor>real (length (filter (\<lambda>i. 0 < i) arr3)) * (1 - cutoffPercentile)\<rfloor>"
    and g: "getChannelStats arr = Some (st, arr3)"
    and cl: "contrastLimits st =
           [js_or0 (js_index c2 \<lfloor>real (length (filter (\<lambda>i. 0 < i) arr3)) * cutoffPercentile\<rfloor>),
            js_or0 (js_index c2 \<lfloor>real (length (filter (\<lambda>i. 0 < i) arr3)) * (1 - cutoffPercentile)\<rfloor>)]"
    by (rule getChannelStats_run [of arr]) simp
  define P where "P = filter (\<lambda>i. 0 < i) arr"
  define cutoffArr where "cutoffArr = filter (\<lambda>i. 0 < i) arr3"
  define m where "m = length cutoffArr"
  define tp where "tp = \<lfloor>real m * (1 - cutoffPercentile)\<rfloor>"
  define bt where "bt = \<lfloor>real m * cutoffPercentile\<rfloor>"
  have "mset arr3 = mset arr" using s1 s2 s3 unfolding selected_def by simp
  then have msP: "mset cutoffArr = mset P" unfolding cutoffArr_def P_def by simp
  have lenP: "length P = m" using mset_eq_length [OF msP] by (simp only: m_def)
  have sortP: "sort cutoffArr = sort P" using msP by (rule sort_cong_mset)
  have loc: "0 \<le> bt" "bt \<le> tp" "0 < m \<Longrightarrow> tp < int m"
    using cutoff_locations [of m] unfolding tp_def bt_def by blast+
  have s4': "selected cutoffArr c1 tp 0 (int m - 1)" and s5': "selected c1 c2 bt 0 tp"
    and cl': "contrastLimits st = [js_or0 (js_index c2 bt), js_or0 (js_index c2 tp)]"
    using s4 s5 cl unfolding cutoffArr_def m_def tp_def bt_def by simp_all
  have "contrastLimits st =
          (if m = 0 then [Num 0, Num 0]
           else [Num (sort P ! nat bt), Num (sort P ! nat tp)])"
  proof (cases "m = 0")
    case True
    then have "length c2 = 0" using s4' s5' unfolding selected_def m_def by simp
    then have "js_index c2 i = Undefined" for i by (simp add: js_index_def at_index_def)
    with cl' True show ?thesis by simp
  next
    case False
    then have "0 < length cutoffArr" "tp < int (length cutoffArr)" using loc by (simp_all add: m_def)
    from cutoff_selection [OF loc(1,2) this(2)] s4' s5'
    have "js_index c2 bt = Num (sort cutoffArr ! nat bt) \<and> js_index c2 tp = Num (sort cutoffArr ! nat tp)"
      by (simp add: m_def)
    with cl' False sortP show ?thesis by simp
  qed
  then show ?thesis using g lenP unfolding Let_def P_def [symmetric] tp_def bt_def by auto
qed

theorem getChannelStats_contrastLimits_witness:
  "\<exists>st arr'. getChannelStats [0, 7, 0, 3, 5] = Some (st, arr')
     \<and> contrastLimits st = [Num 3, Num 7]"
  using getChannelStats_contrastLimits [of "[0, 7, 0, 3, 5]"]
  by (simp add: cutoffPercentile_def)


text \<open>
  Where the third quartile location does not fall below the median location, that is for
  one sample or at least four, all three are the elements of their ranks and hence ordered.
\<close>

lemma getChannelStats_quartiles:
  assumes "arr \<noteq> []" and "length arr div 2 \<le> 3 * (length arr div 4)"
  shows "\<exists>st arr'. getChannelStats arr = Some (st, arr')
           \<and> q1 st = Num (sort arr ! (length arr div 4))
           \<and> median st = Num (sort arr ! (length arr div 2))
           \<and> q3 st = Num (sort arr ! (3 * (length arr div 4)))
           \<and> sort arr ! (length arr div 4) \<le> sort arr ! (length arr div 2)
           \<and> sort arr ! (length arr div 2) \<le> sort arr ! (3 * (length arr div 4))"
proof -
  define n where "n = length arr"
  obtain arr1 arr2 arr3 st where
    s1: "selected arr arr1 (int (n div 2)) 0 (int n - 1)"
    and s2: "selected arr1 arr2 (int (n div 4)) 0 (int (n div 2))"
    and s3: "selected arr2 arr3 (3 * int (n div 4)) (int (n div 2)) (int n - 1)"
    and g: "getChannelStats arr = Some (st, arr3)"
    and f: "q1 st = js_index arr2 (int (n div 4))" "q3 st = js_index arr3 (3 * int (n div 4))"
      "median st = js_index arr1 (int (n div 2))"
    unfolding n_def by (rule getChannelStats_run [of arr]) simp
  have "0 < length arr" using assms by simp
  then have n: "0 < n" "n div 4 \<le> n div 2" "n div 2 < n" "3 * (n div 4) < n" "n div 2 \<le> 3 * (n div 4)"
    using assms(2) unfolding n_def by linarith+
  have l1: "length arr1 = n" and m1: "mset arr1 = mset arr"
    using s1 unfolding selected_def n_def by simp_all
  have l2: "length arr2 = n" and m2: "mset arr2 = mset arr"
    using s2 l1 m1 unfolding selected_def by simp_all
  have l3: "length arr3 = n" and m3: "mset arr3 = mset arr"
    using s3 l2 m2 unfolding selected_def by simp_all
  have p1: "partitioned_at arr1 (n div 2)"
    using selected_whole [of arr arr1 "int (n div 2)"] s1 n by (simp add: n_def)
  have p2: "partitioned_at arr2 (n div 2) \<and> partitioned_at arr2 (n div 4)
              \<and> arr2 ! (n div 2) = arr1 ! (n div 2)"
    using selected_below [of "int (n div 4)" "int (n div 2)" arr1 arr2] s2 p1 n l1 by simp
  have p3: "partitioned_at arr3 (3 * (n div 4))"
    using selected_above [of "int (n div 2)" "3 * int (n div 4)" arr2 arr3] s3 p2 n l2
    by (simp add: nat_mult_distrib)
  have "sort arr1 ! (n div 2) = arr1 ! (n div 2)"
    using partitioned_at_nth_sort [OF _ p1] n l1 by simp
  then have med: "arr1 ! (n div 2) = sort arr ! (n div 2)"
    using sort_cong_mset [OF m1] by simp
  have "sort arr2 ! (n div 4) = arr2 ! (n div 4)"
    using partitioned_at_nth_sort [of "n div 4" arr2] p2 n l2 by simp
  then have fq: "arr2 ! (n div 4) = sort arr ! (n div 4)"
    using sort_cong_mset [OF m2] by simp
  have "sort arr3 ! (3 * (n div 4)) = arr3 ! (3 * (n div 4))"
    using partitioned_at_nth_sort [OF _ p3] n l3 by simp
  then have tq: "arr3 ! (3 * (n div 4)) = sort arr ! (3 * (n div 4))"
    using sort_cong_mset [OF m3] by simp
  have "median st = Num (sort arr ! (n div 2))"
    using f med n l1 by (simp add: js_index_def at_index_def)
  moreover have "q1 st = Num (sort arr ! (n div 4))"
    using f fq n l2 by (simp add: js_index_def at_index_def)
  moreover have "q3 st = Num (sort arr ! (3 * (n div 4)))"
    using f tq n l3 by (simp add: js_index_def at_index_def nat_mult_distrib)
  moreover have "sort arr ! (n div 4) \<le> sort arr ! (n div 2)"
    by (rule sorted_nth_mono) (use n in \<open>simp_all add: n_def\<close>)
  moreover have "sort arr ! (n div 2) \<le> sort arr ! (3 * (n div 4))"
    by (rule sorted_nth_mono) (use n in \<open>simp_all add: n_def\<close>)
  ultimately show ?thesis using g unfolding n_def by blast
qed


lemma getChannelStats_total: "\<exists>st arr'. getChannelStats arr = Some (st, arr')"
  by (rule getChannelStats_run [of arr]) blast

text \<open>
  C9. Two separate buffers with the same contents give the same statistics, field by
  field, when \<open>getChannelStats\<close> runs on one and then on the other: the reordering of the
  first does not reach the second. (\<open>NaN\<close> counts as identical to \<open>NaN\<close>.)
\<close>

theorem getChannelStats_copies:
  assumes "a \<noteq> b" and "h a = h b"
  shows "\<exists>st h1 h2. getChannelStats_at a h = Some (st, h1) \<and> getChannelStats_at b h1 = Some (st, h2)"
proof -
  obtain st arr' where g: "getChannelStats (h a) = Some (st, arr')"
    using getChannelStats_total by blast
  then have 1: "getChannelStats_at a h = Some (st, h(a := arr'))"
    by (simp add: getChannelStats_at_def)
  have "(h(a := arr')) b = h a" using assms by simp
  with g have "getChannelStats_at b (h(a := arr')) = Some (st, (h(a := arr'))(b := arr'))"
    by (simp add: getChannelStats_at_def)
  with 1 show ?thesis by blast
qed

theorem getChannelStats_copies_witness:
  "(0::nat) \<noteq> 1 \<and> (\<lambda>a. [3, 1, 2]) (0::nat) = (\<lambda>a. [3, 1, 2 :: real]) (1::nat)
   \<and> (\<exists>st h1 h2. getChannelStats_at 0 (\<lambda>a. [3, 1, 2]) = Some (st, h1)
         \<and> getChannelStats_at 1 h1 = Some (st, h2))"
  using getChannelStats_copies [of 0 1 "\<lambda>a. [3, 1, 2]"] by simp

section \<open>Properties of getSingleSelectionStats3D\<close>








end
